theory Spec2Isabelle
  imports Main
begin

section \<open>JavaScript strings\<close>

text \<open>
  A JavaScript string is a sequence of UTF-16 code units. The model uses \<^typ>\<open>string\<close>:
  a \<^typ>\<open>char\<close> stands for one code unit in the range U+0000 .. U+00FF (Latin-1), and
  \<open>of_char c\<close> is its code. All functions below agree with their JavaScript
  counterparts on strings of such code units; code units above U+00FF are outside the
  model.
\<close>

definition code :: "char \<Rightarrow> nat" where
  "code c = of_char c"

text \<open>
  The ECMAScript \<open>WhiteSpace\<close> and \<open>LineTerminator\<close> code points up to U+00FF: TAB, LF, VT, FF,
  CR, SP and NBSP. Both \<open>String.prototype.trim\<close> and the regular expression class
  \<open>\s\<close> use this set.
\<close>

definition isWhiteSpace :: "char \<Rightarrow> bool" where
  "isWhiteSpace c = (code c = 9 \<or> code c = 10 \<or> code c = 11 \<or> code c = 12 \<or> code c = 13
     \<or> code c = 32 \<or> code c = 160)"

text \<open>The regular expression class \<open>\d\<close>, that is \<open>[0-9]\<close>.\<close>

definition isDigit :: "char \<Rightarrow> bool" where
  "isDigit c = (48 \<le> code c \<and> code c \<le> 57)"

text \<open>The regular expression class \<open>[a-z0-9]\<close>.\<close>

definition isLowerAlnum :: "char \<Rightarrow> bool" where
  "isLowerAlnum c = ((97 \<le> code c \<and> code c \<le> 122) \<or> isDigit c)"

definition dash :: char where
  "dash = CHR ''-''"

text \<open>
  \<open>String.prototype.toLowerCase\<close> on Latin-1 code units: \<open>A-Z\<close> and the upper case
  letters U+00C0 .. U+00DE (all but the multiplication sign U+00D7) move up by 32;
  every other code unit is unchanged.
\<close>

definition toLowerCase_char :: "char \<Rightarrow> char" where
  "toLowerCase_char c =
     (if (65 \<le> code c \<and> code c \<le> 90) \<or> (192 \<le> code c \<and> code c \<le> 222 \<and> code c \<noteq> 215)
      then char_of (code c + 32) else c)"

definition toLowerCase :: "string \<Rightarrow> string" where
  "toLowerCase s = map toLowerCase_char s"

text \<open>\<open>String.prototype.trim\<close>: removes white space from both ends.\<close>

definition trim :: "string \<Rightarrow> string" where
  "trim s = rev (dropWhile isWhiteSpace (rev (dropWhile isWhiteSpace s)))"

section \<open>Numbers and strings\<close>

text \<open>The decimal digit of a number below ten, and the value of a digit.\<close>

definition digit_char :: "nat \<Rightarrow> char" where
  "digit_char n = char_of (48 + n)"

definition digit_value :: "char \<Rightarrow> nat" where
  "digit_value c = code c - 48"

text \<open>\<open>String(n)\<close> for a natural number, and for an integer.\<close>

function dec :: "nat \<Rightarrow> string" where
  "dec n = (if n < 10 then [digit_char n] else dec (n div 10) @ [digit_char (n mod 10)])"
  by pat_completeness auto
termination
  by (relation "measure id") auto

declare dec.simps [simp del]

definition String_int :: "int \<Rightarrow> string" where
  "String_int i = (if i < 0 then CHR ''-'' # dec (nat (- i)) else dec (nat i))"

text \<open>\<open>s.padStart(2, '0')\<close>.\<close>

definition padStart2 :: "string \<Rightarrow> string" where
  "padStart2 s = replicate (2 - length s) (CHR ''0'') @ s"

text \<open>The value of a string of decimal digits.\<close>

definition digits_value :: "string \<Rightarrow> nat" where
  "digits_value ds = foldl (\<lambda>n c. 10 * n + digit_value c) 0 ds"

text \<open>
  \<open>parseInt(s, 10)\<close>: leading white space is skipped, a sign is read, and the longest
  prefix of digits that follows is the number; with no digit there the result is
  \<open>NaN\<close>, here \<open>None\<close>.
\<close>

definition parseInt10 :: "string \<Rightarrow> int option" where
  "parseInt10 s =
     (let t = dropWhile isWhiteSpace s;
          neg = (take 1 t = ''-'');
          u = (if take 1 t = ''-'' \<or> take 1 t = ''+'' then drop 1 t else t);
          ds = takeWhile isDigit u
      in if ds = [] then None
         else Some (if neg then - int (digits_value ds) else int (digits_value ds)))"

section \<open>Regular expressions\<close>

text \<open>
  A regular expression is run as a backtracking matcher: applied to the rest of the
  input it returns, in the order in which the engine tries them, every way to match a
  prefix, each as the matched text and what is left. Alternatives are tried left to
  right, and \<open>?\<close> and \<open>*\<close> are greedy (the longer match first).
\<close>

type_synonym matcher = "string \<Rightarrow> (string \<times> string) list"

definition one :: "(char \<Rightarrow> bool) \<Rightarrow> matcher" where
  "one P s = (case s of [] \<Rightarrow> [] | c # cs \<Rightarrow> if P c then [([c], cs)] else [])"

definition lit :: "char \<Rightarrow> matcher" where
  "lit c = one (\<lambda>x. x = c)"

definition among :: "string \<Rightarrow> matcher" where
  "among cs = one (\<lambda>x. x \<in> set cs)"

definition seq :: "matcher \<Rightarrow> matcher \<Rightarrow> matcher" where
  "seq p q s = concat (map (\<lambda>(a, r). map (\<lambda>(b, r'). (a @ b, r')) (q r)) (p s))"

definition alt :: "matcher \<Rightarrow> matcher \<Rightarrow> matcher" where
  "alt p q s = p s @ q s"

definition opt :: "matcher \<Rightarrow> matcher" where
  "opt p s = p s @ [([], s)]"

fun many :: "(char \<Rightarrow> bool) \<Rightarrow> matcher" where
  "many P [] = [([], [])]"
| "many P (c # cs) =
     (if P c then map (\<lambda>(a, r). (c # a, r)) (many P cs) else []) @ [([], c # cs)]"

definition many1 :: "(char \<Rightarrow> bool) \<Rightarrow> matcher" where
  "many1 P = seq (one P) (many P)"

text \<open>\<open>/^r$/.test(s)\<close>: some way of matching \<open>r\<close> uses up the whole input.\<close>

definition test_whole :: "matcher \<Rightarrow> string \<Rightarrow> bool" where
  "test_whole r s = list_ex (\<lambda>(a, rest). rest = []) (r s)"

text \<open>The first element of a list of results, as the engine returns the first match.\<close>

definition first_match :: "'a list \<Rightarrow> 'a option" where
  "first_match xs = (case xs of [] \<Rightarrow> None | x # _ \<Rightarrow> Some x)"

section \<open>The time normalizer\<close>

datatype error =
    RequiredFieldMissing string
  | InvalidEnumValue
  | EmptyListField string
  | InvalidDate
  | InvalidTime
  | InvalidEmail
  | DanglingReference
  | ReferenceCheckFailed
  | StoreError string

text \<open>\<open>/^([01]\d|2[0-3]):([0-5]\d)$/\<close>, the same in both variants.\<close>

definition hour24_re :: matcher where
  "hour24_re = alt (seq (among ''01'') (one isDigit)) (seq (lit CHR ''2'') (among ''0123''))"

definition minute_re :: matcher where
  "minute_re = seq (among ''012345'') (one isDigit)"

definition hhmm_re :: matcher where
  "hhmm_re = seq hour24_re (seq (lit CHR '':'') minute_re)"

text \<open>
  \<open>/^\s*(1[0-2]|0?\d):([0-5]\d)\s*([AaPp][Mm])\s*$/.exec(s)\<close> of the first variant: the
  three groups of the first match, if there is one.
\<close>

definition hour_re :: matcher where
  "hour_re = alt (seq (lit CHR ''1'') (among ''012'')) (seq (opt (lit CHR ''0'')) (one isDigit))"

definition period_re :: matcher where
  "period_re = seq (among ''AaPp'') (among ''Mm'')"

definition twelveHour_matches :: "string \<Rightarrow> (string \<times> string \<times> string) list" where
  "twelveHour_matches s =
     [(h, m, p).
        (w0, r0) \<leftarrow> many isWhiteSpace s,
        (h, r1) \<leftarrow> hour_re r0,
        (c, r2) \<leftarrow> lit CHR '':'' r1,
        (m, r3) \<leftarrow> minute_re r2,
        (w1, r4) \<leftarrow> many isWhiteSpace r3,
        (p, r5) \<leftarrow> period_re r4,
        (w2, r6) \<leftarrow> many isWhiteSpace r5,
        r6 = []]"

definition twelveHour_exec :: "string \<Rightarrow> (string \<times> string \<times> string) option" where
  "twelveHour_exec s = first_match (twelveHour_matches s)"

text \<open>\<open>/^(1[0-2]|0?\d):([0-5]\d)\s*([AaPp][Mm])$/.exec(s)\<close> of the second variant.\<close>

definition twelveHour_matches_v2 :: "string \<Rightarrow> (string \<times> string \<times> string) list" where
  "twelveHour_matches_v2 s =
     [(h, m, p).
        (h, r1) \<leftarrow> hour_re s,
        (c, r2) \<leftarrow> lit CHR '':'' r1,
        (m, r3) \<leftarrow> minute_re r2,
        (w1, r4) \<leftarrow> many isWhiteSpace r3,
        (p, r5) \<leftarrow> period_re r4,
        r5 = []]"

definition twelveHour_exec_v2 :: "string \<Rightarrow> (string \<times> string \<times> string) option" where
  "twelveHour_exec_v2 s = first_match (twelveHour_matches_v2 s)"

text \<open>
  The conversion both variants apply to a match: \<open>parseInt\<close> of the hour, plus twelve
  for \<open>pm\<close> unless the hour is 12, zero for \<open>am\<close> when the hour is 12, then
  \<open>String(hours).padStart(2, '0')\<close>, a colon and the minutes as matched. (\<open>NaN\<close>
  would survive both tests and the addition, and print as \<open>NaN\<close>.)
\<close>

definition convert12 :: "string \<times> string \<times> string \<Rightarrow> string" where
  "convert12 g =
     (case g of (h, minutes, p) \<Rightarrow>
        (let period = toLowerCase p in
         case parseInt10 h of
           None \<Rightarrow> ''NaN'' @ '':'' @ minutes
         | Some hours \<Rightarrow>
             (let hours1 = (if period = ''pm'' \<and> hours \<noteq> 12 then hours + 12 else hours);
                  hours2 = (if period = ''am'' \<and> hours1 = 12 then 0 else hours1)
              in padStart2 (String_int hours2) @ '':'' @ minutes)))"

text \<open>\<open>normalizeTime\<close> of the first variant (lines 47-74).\<close>

definition normalizeTime :: "string \<Rightarrow> error + string" where
  "normalizeTime time =
     (let trimmed = trim time in
      if test_whole hhmm_re trimmed then Inr trimmed
      else case twelveHour_exec trimmed of
             Some g \<Rightarrow> Inr (convert12 g)
           | None \<Rightarrow> Inl InvalidTime)"

text \<open>\<open>normalizeTime\<close> of the second variant (lines 207-229).\<close>

definition normalizeTime_v2 :: "string \<Rightarrow> error + string" where
  "normalizeTime_v2 time =
     (let trimmed = trim time in
      if test_whole hhmm_re trimmed then Inr trimmed
      else case twelveHour_exec_v2 trimmed of
             Some g \<Rightarrow> Inr (convert12 g)
           | None \<Rightarrow> Inl InvalidTime)"

text \<open>
  The specification's wording, for comparison: the two accepted shapes, and the 24-hour
  value of a 12-hour time. \<open>time12_shape lo\<close> takes the least hour it admits as a
  parameter. The hour is written \<open>dec n\<close> (no leading zero) or \<open>two_digits n\<close>.
\<close>

definition two_digits :: "nat \<Rightarrow> string" where
  "two_digits n = [digit_char (n div 10), digit_char (n mod 10)]"

definition to24 :: "nat \<Rightarrow> bool \<Rightarrow> nat" where
  "to24 h pm = (if pm then (if h = 12 then 12 else h + 12) else (if h = 12 then 0 else h))"

definition time24_shape :: "string \<Rightarrow> bool" where
  "time24_shape t = (\<exists>h m. h < 24 \<and> m < 60 \<and> t = two_digits h @ '':'' @ two_digits m)"

definition time12_shape :: "nat \<Rightarrow> string \<Rightarrow> bool" where
  "time12_shape lo t =
     (\<exists>n m hs w a b. lo \<le> n \<and> n \<le> 12 \<and> m < 60 \<and> (hs = dec n \<or> hs = two_digits n)
        \<and> list_all isWhiteSpace w \<and> a \<in> set ''AaPp'' \<and> b \<in> set ''Mm''
        \<and> t = hs @ '':'' @ two_digits m @ w @ [a, b])"

text \<open>
  For the proofs: a matcher recognises a language when its results on every input are
  exactly the splits of the input into a word of the language and a rest.
\<close>

definition recognises :: "matcher \<Rightarrow> string set \<Rightarrow> bool" where
  "recognises M L = (\<forall>s a r. ((a, r) \<in> set (M s)) = (s = a @ r \<and> a \<in> L))"

abbreviation hours12 :: "string set" where
  "hours12 \<equiv> {two_digits h | h. h \<le> 12} \<union> {dec h | h. h < 10}"

abbreviation minutes60 :: "string set" where
  "minutes60 \<equiv> {two_digits m | m. m < 60}"

abbreviation periods :: "string set" where
  "periods \<equiv> {[a, b] | a b. a \<in> set ''AaPp'' \<and> b \<in> set ''Mm''}"

section \<open>The slug generator\<close>

text \<open>
  \<open>.replace(/[^a-z0-9]+/g, '-')\<close>: scanning from the left, every match of
  \<open>[^a-z0-9]+\<close> (greedy, so a maximal run) is replaced by one dash; a code unit at which
  the expression does not match is copied.
\<close>

function replace_non_alnum :: "string \<Rightarrow> string" where
  "replace_non_alnum [] = []"
| "replace_non_alnum (c # cs) =
     (if isLowerAlnum c then c # replace_non_alnum cs
      else dash # replace_non_alnum (dropWhile (\<lambda>x. \<not> isLowerAlnum x) cs))"
  by pat_completeness auto
termination
  by (relation "measure length") (auto simp: less_Suc_eq_le length_dropWhile_le)

text \<open>
  \<open>.replace(/^-+|-+$/g, '')\<close>: the flag says whether the scan stands at index 0, where
  alone \<open>^-+\<close> can match (and then takes the whole run of dashes). Elsewhere a dash
  starts a match only of \<open>-+$\<close>, that is when nothing but dashes follows up to the end of
  the string. Matches are replaced by the empty string.
\<close>

function replace_edge_dashes :: "bool \<Rightarrow> string \<Rightarrow> string" where
  "replace_edge_dashes start [] = []"
| "replace_edge_dashes start (c # cs) =
     (if c = dash \<and> start then replace_edge_dashes False (dropWhile (\<lambda>x. x = dash) cs)
      else if c = dash \<and> list_all (\<lambda>x. x = dash) cs then []
      else c # replace_edge_dashes False cs)"
  by pat_completeness auto
termination
  by (relation "measure (\<lambda>(start, s). length s)") (auto simp: less_Suc_eq_le length_dropWhile_le)

text \<open>
  \<open>generateSlug\<close> of the first variant of \<open>event.model.ts\<close> (lines 24-31):
  \<open>title.toString().trim().toLowerCase().replace(...).replace(...)\<close>.
\<close>

definition generateSlug :: "string \<Rightarrow> string" where
  "generateSlug title =
     replace_edge_dashes True (replace_non_alnum (toLowerCase (trim title)))"

text \<open>
  \<open>generateSlug\<close> of the second variant (lines 178-184): \<open>toLowerCase\<close> first, then
  \<open>trim\<close>.
\<close>

definition generateSlug_v2 :: "string \<Rightarrow> string" where
  "generateSlug_v2 title =
     replace_edge_dashes True (replace_non_alnum (trim (toLowerCase title)))"

text \<open>
  The specification's wording, as a second definition: lowercase the title, collapse
  every run of non-alphanumeric characters to a single hyphen, strip leading and
  trailing hyphens.
\<close>

definition collapse_runs :: "string \<Rightarrow> string" where
  "collapse_runs s =
     foldr (\<lambda>c out. if isLowerAlnum c then c # out
                     else if take 1 out = [dash] then out else dash # out) s []"

definition strip_hyphens :: "string \<Rightarrow> string" where
  "strip_hyphens s = rev (dropWhile (\<lambda>x. x = dash) (rev (dropWhile (\<lambda>x. x = dash) s)))"

definition slug_spec :: "string \<Rightarrow> string" where
  "slug_spec title = strip_hyphens (collapse_runs (toLowerCase title))"

section \<open>The date normalizer\<close>

text \<open>
  What \<open>normalizeDate\<close> reads of a \<open>Date\<close>: its UTC year, month (0-based, as
  \<open>getUTCMonth\<close> returns it) and day of the month.
\<close>

record utc_date =
  utcFullYear :: int
  utcMonth :: nat
  utcDate :: nat

definition leap_year :: "nat \<Rightarrow> bool" where
  "leap_year y = (y mod 4 = 0 \<and> (y mod 100 \<noteq> 0 \<or> y mod 400 = 0))"

definition days_in_month :: "nat \<Rightarrow> nat \<Rightarrow> nat" where
  "days_in_month y m =
     (if m = 2 then (if leap_year y then 29 else 28)
      else if m = 4 \<or> m = 6 \<or> m = 9 \<or> m = 11 then 30 else 31)"

text \<open>
  \<open>new Date(s)\<close> for a string in the date-only form \<open>YYYY-MM-DD\<close> of the ECMAScript
  date-time string format that names a day of the calendar: the instant is midnight
  UTC of that day, so the UTC fields are the fields written. Every other string is none
  of these.
\<close>

definition iso_calendar_date :: "string \<Rightarrow> utc_date option" where
  "iso_calendar_date s =
     (let ys = take 4 s; ms = take 2 (drop 5 s); ds = drop 8 s;
          y = digits_value ys; m = digits_value ms; d = digits_value ds
      in if length s = 10 \<and> s ! 4 = CHR ''-'' \<and> s ! 7 = CHR ''-''
            \<and> list_all isDigit ys \<and> list_all isDigit ms \<and> list_all isDigit ds
            \<and> 1 \<le> m \<and> m \<le> 12 \<and> 1 \<le> d \<and> d \<le> days_in_month y m
         then Some \<lparr>utcFullYear = int y, utcMonth = m - 1, utcDate = d\<rparr>
         else None)"

text \<open>
  \<open>new Date(s)\<close> in general. How a string outside the form above is read (the other
  forms of the format, and whatever else the engine accepts) is the parameter
  \<open>engine\<close>; \<open>None\<close> is the invalid date, whose \<open>getTime()\<close> is \<open>NaN\<close>.
\<close>

definition new_Date :: "(string \<Rightarrow> utc_date option) \<Rightarrow> string \<Rightarrow> utc_date option" where
  "new_Date engine s =
     (case iso_calendar_date s of Some d \<Rightarrow> Some d | None \<Rightarrow> engine s)"

text \<open>
  \<open>normalizeDate\<close> (lines 34-44 and 190-201; the two variants differ in the message of
  the error only): the year as \<open>String\<close> prints it, the month plus one and the day
  padded to two digits.
\<close>

definition normalizeDate :: "(string \<Rightarrow> utc_date option) \<Rightarrow> string \<Rightarrow> error + string" where
  "normalizeDate engine date =
     (case new_Date engine date of
        None \<Rightarrow> Inl InvalidDate
      | Some parsed \<Rightarrow>
          (let year = utcFullYear parsed;
               month = padStart2 (dec (utcMonth parsed + 1));
               day = padStart2 (dec (utcDate parsed))
           in Inr (String_int year @ ''-'' @ month @ ''-'' @ day)))"

text \<open>The specification's canonical form: zero-padded \<open>YYYY-MM-DD\<close> of a calendar day.\<close>

definition four_digits :: "nat \<Rightarrow> string" where
  "four_digits n =
     [digit_char (n div 10 div 10 div 10), digit_char (n div 10 div 10 mod 10),
      digit_char (n div 10 mod 10), digit_char (n mod 10)]"

definition canonical_date :: "nat \<Rightarrow> nat \<Rightarrow> nat \<Rightarrow> string" where
  "canonical_date y m d = four_digits y @ ''-'' @ two_digits m @ ''-'' @ two_digits d"

definition calendar_day :: "nat \<Rightarrow> nat \<Rightarrow> nat \<Rightarrow> bool" where
  "calendar_day y m d = (y \<le> 9999 \<and> 1 \<le> m \<and> m \<le> 12 \<and> 1 \<le> d \<and> d \<le> days_in_month y m)"

section \<open>The Event model\<close>

record event =
  title :: string
  slug :: string
  description :: string
  overview :: string
  image :: string
  venue :: string
  location :: string
  date :: string
  time :: string
  mode :: string
  audience :: string
  agenda :: "string list"
  organizer :: string
  tags :: "string list"

text \<open>
  A document as a hook sees it: the stored fields, and the paths \<open>isModified\<close> answers
  for. An unset slug is the empty string (\<open>!this.slug\<close>).
\<close>

type_synonym modified = "string \<Rightarrow> bool"

text \<open>
  The failures, named as the specification names them. From the code:
  \<open>Field "f" is required and must be a non-empty string\<close> and the failures of
  \<open>required\<close> in the schemas are \<open>RequiredFieldMissing f\<close>; the \<open>enum\<close> message is
  \<open>InvalidEnumValue\<close>; the array messages are \<open>EmptyListField f\<close>; the errors of
  \<open>normalizeDate\<close> and \<open>normalizeTime\<close> are \<open>InvalidDate\<close> and \<open>InvalidTime\<close>;
  \<open>Invalid email address\<close> and \<open>Please provide a valid email address\<close> are
  \<open>InvalidEmail\<close>; \<open>... does not exist\<close> is \<open>DanglingReference\<close>;
  \<open>Failed to validate event reference\<close> is \<open>ReferenceCheckFailed\<close>; an error of the
  store handed on as it is, is \<open>StoreError\<close>.
\<close>

definition assertNonEmpty :: "string \<Rightarrow> string \<Rightarrow> error + unit" where
  "assertNonEmpty field v =
     (if length (trim v) = 0 then Inl (RequiredFieldMissing field) else Inr ())"

text \<open>
  Saving a document, as far as these files decide it. The setters a schema declares
  (\<open>trim\<close>, \<open>lowercase\<close>) are applied when a field is assigned, so the document that is
  saved holds their results. On \<open>save\<close> the validators of the schema run first, and their
  failures are reported together, one for a path (its first failing validator,
  \<open>required\<close> before the others); \<open>required\<close> fails for a string that is empty and
  passes for any array. The model validates every path: that is what happens to a new
  document, and to the modified paths of a stored one. With no failure the
  \<open>pre('save')\<close> hook runs. With no failure there either, the document is handed to the
  store; what the store does with it (the unique indexes) is not part of this model.
\<close>

definition required :: "string \<Rightarrow> string \<Rightarrow> error list" where
  "required field v = (if v = [] then [RequiredFieldMissing field] else [])"

text \<open>Sequencing of steps that may throw.\<close>

definition and_then :: "error + 'a \<Rightarrow> ('a \<Rightarrow> error + 'b) \<Rightarrow> error + 'b" where
  "and_then r f = (case r of Inl e \<Rightarrow> Inl e | Inr x \<Rightarrow> f x)"

text \<open>
  The \<open>pre('save')\<close> hook of the first variant (lines 106-145), in three parts: the
  checks, then the three conditional assignments. A throw anywhere ends the hook with
  that error (\<open>next(error)\<close>), and nothing is saved. The fields are strings and lists
  of strings, as the schema casts them, so \<open>typeof value !== 'string'\<close> and
  \<open>!Array.isArray(...)\<close> are false.
\<close>

definition preSave_checks :: "event \<Rightarrow> error + unit" where
  "preSave_checks ev =
     and_then (assertNonEmpty ''title'' (title ev)) (\<lambda>_.
     and_then (assertNonEmpty ''description'' (description ev)) (\<lambda>_.
     and_then (assertNonEmpty ''overview'' (overview ev)) (\<lambda>_.
     and_then (assertNonEmpty ''image'' (image ev)) (\<lambda>_.
     and_then (assertNonEmpty ''venue'' (venue ev)) (\<lambda>_.
     and_then (assertNonEmpty ''location'' (location ev)) (\<lambda>_.
     and_then (assertNonEmpty ''mode'' (mode ev)) (\<lambda>_.
     and_then (assertNonEmpty ''audience'' (audience ev)) (\<lambda>_.
     and_then (assertNonEmpty ''organizer'' (organizer ev)) (\<lambda>_.
     if length (agenda ev) = 0 then Inl (EmptyListField ''agenda'')
     else if length (tags ev) = 0 then Inl (EmptyListField ''tags'')
     else Inr ())))))))))"

definition preSave :: "(string \<Rightarrow> utc_date option) \<Rightarrow> modified \<Rightarrow> event \<Rightarrow> error + event" where
  "preSave engine isModified ev =
     and_then (preSave_checks ev) (\<lambda>_.
     (let ev1 = (if isModified ''title'' \<or> slug ev = [] then ev\<lparr>slug := generateSlug (title ev)\<rparr>
                 else ev)
      in and_then (if isModified ''date''
                   then and_then (normalizeDate engine (date ev1)) (\<lambda>d. Inr (ev1\<lparr>date := d\<rparr>))
                   else Inr ev1) (\<lambda>ev2.
         if isModified ''time''
         then and_then (normalizeTime (time ev2)) (\<lambda>t. Inr (ev2\<lparr>time := t\<rparr>))
         else Inr ev2)))"

text \<open>
  The first schema (lines 83-103): \<open>trim\<close> for nine of the strings, \<open>required\<close> for
  every path. The slug is among the required paths, and the hook that computes it runs
  after the validators.
\<close>

definition applySetters :: "event \<Rightarrow> event" where
  "applySetters ev =
     ev\<lparr>title := trim (title ev), description := trim (description ev),
        overview := trim (overview ev), image := trim (image ev), venue := trim (venue ev),
        location := trim (location ev), mode := trim (mode ev), audience := trim (audience ev),
        organizer := trim (organizer ev)\<rparr>"

definition validate :: "event \<Rightarrow> error list" where
  "validate ev =
     required ''title'' (title ev) @ required ''slug'' (slug ev)
     @ required ''description'' (description ev) @ required ''overview'' (overview ev)
     @ required ''image'' (image ev) @ required ''venue'' (venue ev)
     @ required ''location'' (location ev) @ required ''date'' (date ev)
     @ required ''time'' (time ev) @ required ''mode'' (mode ev)
     @ required ''audience'' (audience ev) @ required ''organizer'' (organizer ev)"

definition save :: "(string \<Rightarrow> utc_date option) \<Rightarrow> modified \<Rightarrow> event \<Rightarrow> error list + event" where
  "save engine isModified ev0 =
     (let ev = applySetters ev0 in
      case validate ev of
        [] \<Rightarrow> (case preSave engine isModified ev of Inl e \<Rightarrow> Inl [e] | Inr ev' \<Rightarrow> Inr ev')
      | errs \<Rightarrow> Inl errs)"

text \<open>
  The second variant. The schema (lines 232-316) declares setters (\<open>trim\<close>, and
  \<open>lowercase\<close> for the slug and the mode) and validators (\<open>required\<close> for every path
  but the slug, \<open>enum\<close> for the mode, \<open>validate\<close> for the two lists).
\<close>

definition applySetters_v2 :: "event \<Rightarrow> event" where
  "applySetters_v2 ev =
     ev\<lparr>title := trim (title ev), slug := toLowerCase (slug ev),
        description := trim (description ev), overview := trim (overview ev),
        image := trim (image ev), venue := trim (venue ev), location := trim (location ev),
        mode := toLowerCase (mode ev), audience := trim (audience ev),
        organizer := trim (organizer ev)\<rparr>"

definition mode_values :: "string list" where
  "mode_values = [''online'', ''offline'', ''hybrid'']"

definition validate_mode :: "string \<Rightarrow> error list" where
  "validate_mode v =
     (if v = [] then [RequiredFieldMissing ''mode'']
      else if v \<notin> set mode_values then [InvalidEnumValue] else [])"

definition validate_list :: "string \<Rightarrow> string list \<Rightarrow> error list" where
  "validate_list field v = (if length v > 0 then [] else [EmptyListField field])"

definition validate_v2 :: "event \<Rightarrow> error list" where
  "validate_v2 ev =
     required ''title'' (title ev) @ required ''description'' (description ev)
     @ required ''overview'' (overview ev) @ required ''image'' (image ev)
     @ required ''venue'' (venue ev) @ required ''location'' (location ev)
     @ required ''date'' (date ev) @ required ''time'' (time ev)
     @ validate_mode (mode ev) @ required ''audience'' (audience ev)
     @ validate_list ''agenda'' (agenda ev) @ required ''organizer'' (organizer ev)
     @ validate_list ''tags'' (tags ev)"

text \<open>The \<open>pre('save')\<close> hook of the second variant (lines 328-349).\<close>

definition preSave_v2 :: "(string \<Rightarrow> utc_date option) \<Rightarrow> modified \<Rightarrow> event \<Rightarrow> error + event" where
  "preSave_v2 engine isModified ev =
     (let ev1 = (if isModified ''title'' then ev\<lparr>slug := generateSlug_v2 (title ev)\<rparr> else ev)
      in and_then (if isModified ''date''
                   then and_then (normalizeDate engine (date ev1)) (\<lambda>d. Inr (ev1\<lparr>date := d\<rparr>))
                   else Inr ev1) (\<lambda>ev2.
         if isModified ''time''
         then and_then (normalizeTime_v2 (time ev2)) (\<lambda>t. Inr (ev2\<lparr>time := t\<rparr>))
         else Inr ev2))"

text \<open>
  Saving in the second variant: the fields as the setters leave them are validated;
  with no failure the hook runs.
\<close>

definition save_v2 :: "(string \<Rightarrow> utc_date option) \<Rightarrow> modified \<Rightarrow> event \<Rightarrow> error list + event" where
  "save_v2 engine isModified ev0 =
     (let ev = applySetters_v2 ev0 in
      case validate_v2 ev of
        [] \<Rightarrow> (case preSave_v2 engine isModified ev of Inl e \<Rightarrow> Inl [e] | Inr ev' \<Rightarrow> Inr ev')
      | errs \<Rightarrow> Inl errs)"

text \<open>
  For the statements about the hooks: the string fields the first hook checks, the
  fields the second schema trims, a field by its name, and an event to try things on.
\<close>

definition listed_fields :: "string list" where
  "listed_fields = [''title'', ''description'', ''overview'', ''image'', ''venue'', ''location'',
     ''mode'', ''audience'', ''organizer'']"

definition trimmed_fields_v2 :: "string list" where
  "trimmed_fields_v2 = [''title'', ''description'', ''overview'', ''image'', ''venue'', ''location'',
     ''audience'', ''organizer'']"

definition field_value :: "string \<Rightarrow> event \<Rightarrow> string" where
  "field_value f ev =
     (if f = ''title'' then title ev else if f = ''description'' then description ev
      else if f = ''overview'' then overview ev else if f = ''image'' then image ev
      else if f = ''venue'' then venue ev else if f = ''location'' then location ev
      else if f = ''mode'' then mode ev else if f = ''audience'' then audience ev
      else if f = ''organizer'' then organizer ev else [])"

definition sample_event :: "string \<Rightarrow> event" where
  "sample_event m =
     \<lparr>title = ''Tech Meetup 2025'', slug = [], description = ''An evening of talks'',
      overview = ''Talks and networking'', image = ''https://example.org/a.png'',
      venue = ''Main Hall'', location = ''Pune'', date = ''2025-06-01'', time = ''6:30 PM'',
      mode = m, audience = ''Developers'', agenda = [''Doors open'', ''Talks''],
      organizer = ''Pune JS'', tags = [''js'']\<rparr>"

text \<open>
  What either hook returns once its checks have passed, with the condition for a new
  slug, the slug generator and the two normalizers as parameters.
\<close>

definition hook_result ::
  "bool \<Rightarrow> (string \<Rightarrow> string) \<Rightarrow> (string \<Rightarrow> error + string) \<Rightarrow> (string \<Rightarrow> error + string)
    \<Rightarrow> modified \<Rightarrow> event \<Rightarrow> error + event" where
  "hook_result new_slug gen nd nt isModified ev =
     (case (if isModified ''date'' then nd (date ev) else Inr (date ev)) of
        Inl e \<Rightarrow> Inl e
      | Inr d \<Rightarrow>
          (case (if isModified ''time'' then nt (time ev) else Inr (time ev)) of
             Inl e \<Rightarrow> Inl e
           | Inr t \<Rightarrow>
               Inr (ev\<lparr>slug := (if new_slug then gen (title ev) else slug ev),
                       date := d, time := t\<rparr>)))"

section \<open>The Booking model\<close>

record booking =
  eventId :: nat
  email :: string

text \<open>
  The Event store as the Booking hook uses it: \<open>Event.exists({ _id })\<close> answers with a
  document or \<open>null\<close>, or the query is rejected with an error of the store.
\<close>

record event_store =
  event_ids :: "nat list"
  failure :: "string option"

datatype exists_result = Found | Missing | Rejected string

definition Event_exists :: "event_store \<Rightarrow> nat \<Rightarrow> exists_result" where
  "Event_exists st i =
     (case failure st of
        Some e \<Rightarrow> Rejected e
      | None \<Rightarrow> if i \<in> set (event_ids st) then Found else Missing)"

text \<open>\<open>EMAIL_REGEX = /^[^\s@]+@[^\s@]+\.[^\s@]+$/\<close>, the same in both variants.\<close>

definition not_space_at :: "char \<Rightarrow> bool" where
  "not_space_at c = (\<not> isWhiteSpace c \<and> c \<noteq> CHR ''@'')"

definition EMAIL_REGEX :: matcher where
  "EMAIL_REGEX =
     seq (many1 not_space_at) (seq (lit CHR ''@'')
       (seq (many1 not_space_at) (seq (lit CHR ''.'') (many1 not_space_at))))"

definition EMAIL_REGEX_test :: "string \<Rightarrow> bool" where
  "EMAIL_REGEX_test s = test_whole EMAIL_REGEX s"

text \<open>
  Both schemas declare \<open>trim\<close> and \<open>lowercase\<close> for the email (lines 23-28 and 83-87):
  the email a document holds is the assigned string trimmed and in lower case.
\<close>

definition applySetters_booking :: "booking \<Rightarrow> booking" where
  "applySetters_booking b = b\<lparr>email := toLowerCase (trim (email b))\<rparr>"

text \<open>
  A hook returns its result and the identifiers it has asked the store for, in order.

  The \<open>pre('save')\<close> hook of the first variant (lines 36-53): the email, then the
  store, on every save; an error of the store is handed on as it is.
\<close>

definition preSave_booking :: "event_store \<Rightarrow> booking \<Rightarrow> (error + booking) \<times> nat list" where
  "preSave_booking st b =
     (if \<not> EMAIL_REGEX_test (email b) then (Inl InvalidEmail, [])
      else case Event_exists st (eventId b) of
             Found \<Rightarrow> (Inr b, [eventId b])
           | Missing \<Rightarrow> (Inl DanglingReference, [eventId b])
           | Rejected e \<Rightarrow> (Inl (StoreError e), [eventId b]))"

text \<open>
  Saving in the first variant: the schema (lines 23-28) has \<open>required\<close> for the email,
  which runs before the hook. Of several failures the first is kept.
\<close>

definition validate_booking :: "booking \<Rightarrow> error list" where
  "validate_booking b = required ''email'' (email b)"

definition save_booking :: "event_store \<Rightarrow> booking \<Rightarrow> (error + booking) \<times> nat list" where
  "save_booking st b0 =
     (let b = applySetters_booking b0 in
      case validate_booking b of
        [] \<Rightarrow> preSave_booking st b
      | e # _ \<Rightarrow> (Inl e, []))"

text \<open>
  The second variant: the email has two validators in the schema (lines 83-92),
  \<open>required\<close> (\<open>Email is required\<close>) and the pattern
  (\<open>Please provide a valid email address\<close>). They run before the hook (lines 109-124),
  which asks the store only for a new document or a modified \<open>eventId\<close>, and gives an
  error of the store a message of its own.
\<close>

definition validate_booking_v2 :: "booking \<Rightarrow> error list" where
  "validate_booking_v2 b =
     (if email b = [] then [RequiredFieldMissing ''email'']
      else if EMAIL_REGEX_test (email b) then [] else [InvalidEmail])"

definition preSave_booking_v2 ::
  "event_store \<Rightarrow> bool \<Rightarrow> modified \<Rightarrow> booking \<Rightarrow> (error + booking) \<times> nat list" where
  "preSave_booking_v2 st isNew isModified b =
     (if isNew \<or> isModified ''eventId''
      then case Event_exists st (eventId b) of
             Found \<Rightarrow> (Inr b, [eventId b])
           | Missing \<Rightarrow> (Inl DanglingReference, [eventId b])
           | Rejected e \<Rightarrow> (Inl ReferenceCheckFailed, [eventId b])
      else (Inr b, []))"

definition save_booking_v2 ::
  "event_store \<Rightarrow> bool \<Rightarrow> modified \<Rightarrow> booking \<Rightarrow> (error + booking) \<times> nat list" where
  "save_booking_v2 st isNew isModified b0 =
     (let b = applySetters_booking b0 in
      case validate_booking_v2 b of
        [] \<Rightarrow> preSave_booking_v2 st isNew isModified b
      | e # _ \<Rightarrow> (Inl e, []))"

text \<open>The specification's wording of the email pattern: \<open>local-part@domain.tld\<close>.\<close>

definition email_shape :: "string \<Rightarrow> bool" where
  "email_shape s =
     (\<exists>l d t. l \<noteq> [] \<and> d \<noteq> [] \<and> t \<noteq> [] \<and> list_all not_space_at l \<and> list_all not_space_at d
        \<and> list_all not_space_at t \<and> s = l @ ''@'' @ d @ ''.'' @ t)"

section \<open>The connection manager\<close>

text \<open>
  The cache (lines 4-7, 30-33): the connection, and the promise of the attempt in
  flight. A promise is identified by the number of the attempt that made it; a handle
  is named by a number too. \<open>attempts\<close> counts the calls of \<open>mongoose.connect\<close>.
\<close>

record mongoose_cache =
  conn :: "nat option"
  promise :: "nat option"
  attempts :: nat

text \<open>How the attempts end: attempt \<open>k\<close> is fulfilled with a handle or rejected.\<close>

type_synonym outcomes = "nat \<Rightarrow> string + nat"

text \<open>
  \<open>connectDB\<close> (lines 46-76) runs without interruption up to its \<open>await\<close>, and again
  from there once the promise is settled; other callers may run in between. The first
  part returns the cached connection, or makes the promise if there is none and waits
  for the promise in the cache.
\<close>

datatype entered = Returned nat | Awaiting nat

definition connectDB_enter :: "mongoose_cache \<Rightarrow> entered \<times> mongoose_cache" where
  "connectDB_enter c =
     (case conn c of
        Some h \<Rightarrow> (Returned h, c)
      | None \<Rightarrow>
          (case promise c of
             None \<Rightarrow> (Awaiting (attempts c), c\<lparr>promise := Some (attempts c), attempts := attempts c + 1\<rparr>)
           | Some p \<Rightarrow> (Awaiting p, c)))"

text \<open>
  The second part, for the caller that waited for promise \<open>p\<close>: the handle is cached
  and returned, or the promise is cleared from the cache and the error thrown.
\<close>

definition connectDB_resume :: "outcomes \<Rightarrow> nat \<Rightarrow> mongoose_cache \<Rightarrow> (string + nat) \<times> mongoose_cache" where
  "connectDB_resume out p c =
     (case out p of
        Inr h \<Rightarrow> (Inr h, c\<lparr>conn := Some h\<rparr>)
      | Inl e \<Rightarrow> (Inl e, c\<lparr>promise := None\<rparr>))"

text \<open>A call with no other caller in between.\<close>

definition connectDB :: "outcomes \<Rightarrow> mongoose_cache \<Rightarrow> (string + nat) \<times> mongoose_cache" where
  "connectDB out c =
     (case connectDB_enter c of
        (Returned h, c') \<Rightarrow> (Inr h, c')
      | (Awaiting p, c') \<Rightarrow> connectDB_resume out p c')"

text \<open>The three states of the specification.\<close>

datatype conn_state = Unconnected | Connecting | Connected

definition state_of :: "mongoose_cache \<Rightarrow> conn_state" where
  "state_of c =
     (case conn c of Some h \<Rightarrow> Connected
      | None \<Rightarrow> (case promise c of Some p \<Rightarrow> Connecting | None \<Rightarrow> Unconnected))"

section \<open>Proofs\<close>

text \<open>Notions used to state and prove the properties of the slug.\<close>

abbreviation strip_back :: "string \<Rightarrow> string" where
  "strip_back X \<equiv> rev (dropWhile (\<lambda>x. x = dash) (rev X))"

abbreviation nonAlnum :: "char \<Rightarrow> bool" where "nonAlnum \<equiv> (\<lambda>x. \<not> isLowerAlnum x)"

abbreviation isDash :: "char \<Rightarrow> bool" where "isDash \<equiv> (\<lambda>x. x = dash)"

definition slug_char :: "char \<Rightarrow> bool" where
  "slug_char c = (isLowerAlnum c \<or> c = dash)"

fun no_double_dash :: "string \<Rightarrow> bool" where
  "no_double_dash [] = True"
| "no_double_dash [x] = True"
| "no_double_dash (x # y # zs) = ((x \<noteq> dash \<or> y \<noteq> dash) \<and> no_double_dash (y # zs))"

subsection \<open>Properties of the slug generator\<close>

lemma code_dash: "code dash = 45"
  by (simp add: code_def dash_def)

lemma not_alnum_dash: "\<not> isLowerAlnum dash"
  by (simp add: isLowerAlnum_def isDigit_def code_dash)

lemma white_not_alnum: "isWhiteSpace c \<Longrightarrow> \<not> isLowerAlnum c"
  by (auto simp: isWhiteSpace_def isLowerAlnum_def isDigit_def)

lemma code_char_of: "n < 256 \<Longrightarrow> code (char_of n) = n"
  by (simp add: code_def)

lemma white_toLowerCase_char: "isWhiteSpace (toLowerCase_char c) = isWhiteSpace c"
  by (auto simp: toLowerCase_char_def isWhiteSpace_def code_char_of)

lemma toLowerCase_char_id: "isLowerAlnum c \<or> c = dash \<Longrightarrow> toLowerCase_char c = c"
  by (auto simp: toLowerCase_char_def isLowerAlnum_def isDigit_def code_dash)

lemma trim_toLowerCase: "trim (toLowerCase s) = toLowerCase (trim s)"
  by (simp add: trim_def toLowerCase_def dropWhile_map rev_map comp_def white_toLowerCase_char)

lemma strip_back_Cons: "strip_back (c # X) = (if c = dash \<and> list_all (\<lambda>x. x = dash) X then [] else c # strip_back X)"
  by (auto simp: dropWhile_append list_all_iff)

lemma edge_False: "replace_edge_dashes False X = strip_back X"
  by (induction X) (simp_all add: strip_back_Cons del: rev.simps)

lemma edge_True: "replace_edge_dashes True X = strip_hyphens X"
  by (cases X) (auto simp: edge_False strip_hyphens_def strip_back_Cons simp del: rev.simps)

lemma replace_dropN_nodash: "dropWhile isDash (replace_non_alnum (dropWhile nonAlnum s)) = replace_non_alnum (dropWhile nonAlnum s)"
proof (cases "dropWhile nonAlnum s")
  case Nil
  show ?thesis unfolding Nil by simp
next
  case (Cons x xs)
  then have "isLowerAlnum x" by (metis (mono_tags, lifting) hd_dropWhile list.sel(1) list.simps(3))
  then have "x \<noteq> dash" using not_alnum_dash by auto
  with Cons \<open>isLowerAlnum x\<close> show ?thesis by simp
qed

lemma replace_dropN: "replace_non_alnum (dropWhile nonAlnum s) = dropWhile isDash (replace_non_alnum s)"
proof (cases s)
  case Nil
  then show ?thesis by simp
next
  case (Cons c cs)
  show ?thesis
  proof (cases "isLowerAlnum c")
    case True
    then have "c \<noteq> dash" using not_alnum_dash by auto
    with True Cons show ?thesis by simp
  next
    case False
    with Cons show ?thesis by (simp add: replace_dropN_nodash)
  qed
qed

lemma collapse_cons_N:
  "\<not> isLowerAlnum c \<Longrightarrow> collapse_runs (c # cs) = dash # collapse_runs (dropWhile nonAlnum cs)"
proof (induction cs arbitrary: c)
  case Nil
  then show ?case by (simp add: collapse_runs_def)
next
  case (Cons a cs)
  show ?case
  proof (cases "isLowerAlnum a")
    case True
    then have "a \<noteq> dash" using not_alnum_dash by auto
    with True Cons.prems show ?thesis by (simp add: collapse_runs_def)
  next
    case False
    from Cons.IH[OF False] have "collapse_runs (a # cs) = dash # collapse_runs (dropWhile nonAlnum cs)" .
    moreover have "collapse_runs (c # a # cs) =
      (if take 1 (collapse_runs (a # cs)) = [dash] then collapse_runs (a # cs) else dash # collapse_runs (a # cs))"
      using Cons.prems by (simp add: collapse_runs_def)
    ultimately show ?thesis using False by simp
  qed
qed

lemma collapse_cons_alnum: "isLowerAlnum c \<Longrightarrow> collapse_runs (c # cs) = c # collapse_runs cs"
  by (simp add: collapse_runs_def)

lemma replace_is_collapse: "replace_non_alnum s = collapse_runs s"
  by (induction s rule: replace_non_alnum.induct)
     (simp_all add: collapse_cons_N collapse_cons_alnum, simp add: collapse_runs_def)

lemma replace_ok: "list_all slug_char (replace_non_alnum s)"
  by (induction s rule: replace_non_alnum.induct) (simp_all add: slug_char_def)

lemma no_double_dash_Cons_nodash: "no_double_dash X \<Longrightarrow> dropWhile isDash X = X \<Longrightarrow> no_double_dash (c # X)"
  by (cases X) (auto simp: dropWhile_eq_Cons_conv split: if_splits)

lemma no_double_dash_Cons_alnum: "no_double_dash X \<Longrightarrow> c \<noteq> dash \<Longrightarrow> no_double_dash (c # X)"
  by (cases X) auto

lemma replace_nd: "no_double_dash (replace_non_alnum s)"
proof (induction s rule: replace_non_alnum.induct)
  case 1
  then show ?case by simp
next
  case (2 c cs)
  show ?case
  proof (cases "isLowerAlnum c")
    case True
    then have "c \<noteq> dash" using not_alnum_dash by auto
    with True 2 show ?thesis by (simp add: no_double_dash_Cons_alnum)
  next
    case False
    with 2 show ?thesis by (simp add: no_double_dash_Cons_nodash replace_dropN_nodash)
  qed
qed

lemma no_double_dash_append: "no_double_dash (xs @ ys) \<Longrightarrow> no_double_dash xs \<and> no_double_dash ys"
proof (induction xs rule: no_double_dash.induct)
  case 1
  then show ?case by simp
next
  case (2 x)
  then show ?case by (cases ys) auto
next
  case (3 x y zs)
  then show ?case by auto
qed

lemma no_double_dash_no_double: "no_double_dash X \<Longrightarrow> X \<noteq> a @ [dash, dash] @ b"
proof
  assume "no_double_dash X" "X = a @ [dash, dash] @ b"
  then have "no_double_dash ([dash, dash] @ b)" using no_double_dash_append by blast
  then show False by simp
qed

lemma strip_back_prefix: "strip_back X @ rev (takeWhile isDash (rev X)) = X"
proof -
  have "rev (takeWhile isDash (rev X) @ dropWhile isDash (rev X)) = X" by simp
  then show ?thesis by (simp only: rev_append)
qed

lemma dropD_suffix: "takeWhile isDash X @ dropWhile isDash X = X"
  by simp

lemma no_double_dash_strip: "no_double_dash X \<Longrightarrow> no_double_dash (strip_hyphens X)"
proof -
  assume a: "no_double_dash X"
  have "no_double_dash (dropWhile isDash X)" using a no_double_dash_append[of "takeWhile isDash X" "dropWhile isDash X"] by simp
  then show ?thesis
    using no_double_dash_append[of "strip_back (dropWhile isDash X)" "rev (takeWhile isDash (rev (dropWhile isDash X)))"]
    by (simp only: strip_back_prefix strip_hyphens_def)
qed

lemma set_strip: "set (strip_hyphens X) \<subseteq> set X"
proof -
  have "set (strip_back (dropWhile isDash X)) \<subseteq> set (dropWhile isDash X)"
    by (metis set_dropWhileD set_rev subsetI)
  moreover have "set (dropWhile isDash X) \<subseteq> set X" by (meson set_dropWhileD subsetI)
  ultimately show ?thesis by (simp add: strip_hyphens_def)
qed

lemma strip_no_lead: "strip_hyphens X \<noteq> dash # cs"
proof
  assume a: "strip_hyphens X = dash # cs"
  have "strip_back (dropWhile isDash X) @ rev (takeWhile isDash (rev (dropWhile isDash X))) = dropWhile isDash X"
    by (rule strip_back_prefix)
  with a have "dropWhile isDash X = dash # cs @ rev (takeWhile isDash (rev (dropWhile isDash X)))"
    by (simp add: strip_hyphens_def)
  then show False by (metis (mono_tags, lifting) hd_dropWhile list.sel(1) list.simps(3))
qed

lemma strip_no_trail: "strip_hyphens X \<noteq> cs @ [dash]"
proof
  assume a: "strip_hyphens X = cs @ [dash]"
  then have "rev (strip_hyphens X) = dash # rev cs" by simp
  then have "dropWhile isDash (rev (dropWhile isDash X)) = dash # rev cs" by (simp add: strip_hyphens_def)
  then show False by (metis (mono_tags, lifting) hd_dropWhile list.sel(1) list.simps(3))
qed

lemma replace_fix: "list_all slug_char Z \<Longrightarrow> no_double_dash Z \<Longrightarrow> replace_non_alnum Z = Z"
proof (induction Z rule: no_double_dash.induct)
  case 1
  then show ?case by simp
next
  case (2 x)
  then show ?case by (auto simp: slug_char_def)
next
  case (3 x y zs)
  show ?case
  proof (cases "isLowerAlnum x")
    case True
    with 3 show ?thesis by simp
  next
    case False
    with 3 have "x = dash" by (simp add: slug_char_def)
    with 3 have "y \<noteq> dash" by simp
    with 3 have "isLowerAlnum y" by (simp add: slug_char_def)
    with False 3 show ?thesis using \<open>x = dash\<close> by simp
  qed
qed

lemma strip_fix: "(\<And>cs. Z \<noteq> dash # cs) \<Longrightarrow> (\<And>cs. Z \<noteq> cs @ [dash]) \<Longrightarrow> strip_hyphens Z = Z"
proof -
  assume a: "\<And>cs. Z \<noteq> dash # cs" and b: "\<And>cs. Z \<noteq> cs @ [dash]"
  have 1: "dropWhile isDash Z = Z" using a by (cases Z) auto
  have "dropWhile isDash (rev Z) = rev Z"
  proof (cases "rev Z")
    case Nil
    then show ?thesis by simp
  next
    case (Cons x xs)
    then have "Z = rev xs @ [x]" by (metis rev.simps(2) rev_rev_ident)
    with b have "x \<noteq> dash" by auto
    with Cons show ?thesis by simp
  qed
  with 1 show ?thesis by (simp add: strip_hyphens_def)
qed

lemma toLowerCase_ok: "list_all slug_char Z \<Longrightarrow> toLowerCase Z = Z"
  by (induction Z) (auto simp: toLowerCase_def slug_char_def toLowerCase_char_id)

lemma ok_not_white: "slug_char c \<Longrightarrow> \<not> isWhiteSpace c"
  using white_not_alnum by (auto simp: slug_char_def isWhiteSpace_def code_dash)

lemma trim_ok: "list_all slug_char Z \<Longrightarrow> trim Z = Z"
proof -
  assume a: "list_all slug_char Z"
  have 1: "dropWhile isWhiteSpace Z = Z" using a by (cases Z) (auto simp: ok_not_white)
  have "list_all slug_char (rev Z)" using a by (simp add: list_all_iff)
  then have "dropWhile isWhiteSpace (rev Z) = rev Z" by (cases "rev Z") (auto simp: ok_not_white)
  with 1 show ?thesis by (simp add: trim_def)
qed

lemma replace_head_alnum: "isLowerAlnum x \<Longrightarrow> \<not> list_all isDash (replace_non_alnum (x # xs))"
  using not_alnum_dash by auto

lemma strip_back_replace_append: "list_all nonAlnum ws \<Longrightarrow> strip_back (replace_non_alnum (s @ ws)) = strip_back (replace_non_alnum s)"
proof (induction s rule: replace_non_alnum.induct)
  case 1
  show ?case
  proof (cases ws)
    case Nil
    then show ?thesis by simp
  next
    case (Cons w ws')
    with 1 have "dropWhile nonAlnum ws' = []" by (simp add: list_all_iff)
    with 1 Cons show ?thesis by (simp del: dropWhile_eq_Nil_conv)
  qed
next
  case (2 c cs)
  show ?case
  proof (cases "isLowerAlnum c")
    case True
    then have "c \<noteq> dash" using not_alnum_dash by auto
    with True 2 show ?thesis by (simp add: strip_back_Cons del: rev.simps)
  next
    case False
    show ?thesis
    proof (cases "list_all nonAlnum cs")
      case True
      with 2(3) have "dropWhile nonAlnum (cs @ ws) = []" "dropWhile nonAlnum cs = []" by (auto simp: list_all_iff)
      with False show ?thesis by (simp del: dropWhile_eq_Nil_conv)
    next
      case nall: False
      then have eq: "dropWhile nonAlnum (cs @ ws) = dropWhile nonAlnum cs @ ws"
        by (auto simp: dropWhile_append list_all_iff)
      from nall obtain x xs where xs: "dropWhile nonAlnum cs = x # xs" "isLowerAlnum x"
        by (metis (mono_tags, lifting) dropWhile_eq_Nil_conv hd_dropWhile list.collapse list_all_iff)
      have a: "\<not> list_all isDash (replace_non_alnum (dropWhile nonAlnum cs @ ws))"
        using replace_head_alnum[OF xs(2)] xs(1) by simp
      have b: "\<not> list_all isDash (replace_non_alnum (dropWhile nonAlnum cs))"
        using replace_head_alnum[OF xs(2)] xs(1) by simp
      from 2(2)[OF False 2(3)] a b False eq show ?thesis
        by (simp add: strip_back_Cons del: rev.simps)
    qed
  qed
qed

lemma dropWhile_dropWhile_sub:
  "(\<And>x. P x \<Longrightarrow> Q x) \<Longrightarrow> dropWhile Q (dropWhile P xs) = dropWhile Q xs"
  by (induction xs) auto

lemma strip_replace_trim: "strip_hyphens (replace_non_alnum (trim s)) = strip_hyphens (replace_non_alnum s)"
proof -
  define u where "u = dropWhile isWhiteSpace s"
  define z where "z = rev (takeWhile isWhiteSpace (rev u))"
  have uz: "u = trim s @ z"
  proof -
    have "rev (takeWhile isWhiteSpace (rev u) @ dropWhile isWhiteSpace (rev u)) = u" by simp
    then show ?thesis by (simp only: rev_append trim_def u_def z_def)
  qed
  have zN: "list_all nonAlnum z"
    using white_not_alnum by (auto simp: z_def list_all_iff dest: set_takeWhileD)
  have 1: "dropWhile nonAlnum s = dropWhile nonAlnum u"
    unfolding u_def using white_not_alnum by (simp add: dropWhile_dropWhile_sub)
  have "strip_back (replace_non_alnum (dropWhile nonAlnum (trim s))) = strip_back (replace_non_alnum (dropWhile nonAlnum u))"
  proof (cases "list_all nonAlnum (trim s)")
    case True
    with zN uz have "dropWhile nonAlnum u = []" "dropWhile nonAlnum (trim s) = []" by (auto simp: list_all_iff)
    then show ?thesis by (simp del: dropWhile_eq_Nil_conv)
  next
    case False
    then have "dropWhile nonAlnum u = dropWhile nonAlnum (trim s) @ z"
      unfolding uz by (auto simp: dropWhile_append list_all_iff)
    then show ?thesis using strip_back_replace_append[OF zN] by simp
  qed
  then show ?thesis by (simp add: strip_hyphens_def replace_dropN[symmetric] 1)
qed

lemma slug_v2_spec: "generateSlug_v2 T = slug_spec T"
  by (simp add: generateSlug_v2_def slug_spec_def edge_True strip_replace_trim replace_is_collapse[symmetric])

lemma slug_v1_v2: "generateSlug T = generateSlug_v2 T"
  by (simp add: generateSlug_def generateSlug_v2_def trim_toLowerCase)

lemma slug_spec_ok: "list_all slug_char (slug_spec T)"
  using set_strip[of "replace_non_alnum (toLowerCase T)"] replace_ok[of "toLowerCase T"]
  by (auto simp: slug_spec_def replace_is_collapse[symmetric] list_all_iff)

lemma slug_spec_nd: "no_double_dash (slug_spec T)"
  by (simp add: slug_spec_def replace_is_collapse[symmetric] no_double_dash_strip replace_nd)

lemma slug_spec_fix: "slug_spec (slug_spec T) = slug_spec T"
proof -
  let ?Z = "slug_spec T"
  have "toLowerCase ?Z = ?Z" by (simp add: toLowerCase_ok slug_spec_ok)
  moreover have "replace_non_alnum ?Z = ?Z" by (simp add: replace_fix slug_spec_ok slug_spec_nd)
  moreover have "strip_hyphens ?Z = ?Z"
    by (rule strip_fix) (simp_all add: slug_spec_def strip_no_lead strip_no_trail)
  ultimately show ?thesis by (simp add: slug_spec_def[of ?Z] replace_is_collapse[symmetric])
qed

text \<open>
  C2: for every title \<open>T\<close> the slug is lowercase (lowercasing it changes nothing, and it
  consists of \<open>a-z\<close>, \<open>0-9\<close> and dashes only), does not begin or end with a dash and has no
  two consecutive dashes; it is the lowercased title with every run of non-alphanumeric
  characters collapsed to one dash and the dashes at both ends stripped (\<open>slug_spec\<close>);
  the generator is a total function (it has no failure value), and the empty title gives
  the empty slug. Both variants of \<open>generateSlug\<close> are covered.
\<close>

theorem generateSlug_properties:
  "generateSlug T = slug_spec T \<and> generateSlug_v2 T = slug_spec T
   \<and> toLowerCase (generateSlug T) = generateSlug T
   \<and> list_all (\<lambda>c. isLowerAlnum c \<or> c = dash) (generateSlug T)
   \<and> (\<forall>cs. generateSlug T \<noteq> dash # cs)
   \<and> (\<forall>cs. generateSlug T \<noteq> cs @ [dash])
   \<and> (\<forall>a b. generateSlug T \<noteq> a @ [dash, dash] @ b)
   \<and> generateSlug [] = [] \<and> generateSlug_v2 [] = []"
proof -
  have e: "generateSlug T = slug_spec T" by (simp add: slug_v1_v2 slug_v2_spec)
  have ok: "list_all slug_char (slug_spec T)" by (rule slug_spec_ok)
  have "list_all (\<lambda>c. isLowerAlnum c \<or> c = dash) (slug_spec T)"
    using ok by (simp add: slug_char_def[abs_def])
  moreover have "toLowerCase (slug_spec T) = slug_spec T" using ok by (rule toLowerCase_ok)
  moreover have "\<forall>cs. slug_spec T \<noteq> dash # cs" by (simp add: slug_spec_def strip_no_lead)
  moreover have "\<forall>cs. slug_spec T \<noteq> cs @ [dash]" by (simp add: slug_spec_def strip_no_trail)
  moreover have "\<forall>a b. slug_spec T \<noteq> a @ [dash, dash] @ b"
    using no_double_dash_no_double[OF slug_spec_nd] by blast
  moreover have "generateSlug [] = []" "generateSlug_v2 [] = []"
    by (simp_all add: generateSlug_def generateSlug_v2_def trim_def toLowerCase_def)
  ultimately show ?thesis using e slug_v2_spec by simp
qed

theorem generateSlug_properties_witness:
  "generateSlug ''  Hello,  World! -- Next.js 14  '' = slug_spec ''  Hello,  World! -- Next.js 14  ''
   \<and> generateSlug ''  Hello,  World! -- Next.js 14  '' = ''hello-world-next-js-14''"
proof -
  have "generateSlug ''  Hello,  World! -- Next.js 14  '' = ''hello-world-next-js-14''"
    by code_simp
  then show ?thesis
    using generateSlug_properties[of "''  Hello,  World! -- Next.js 14  ''"] by simp
qed

text \<open>
  C10: the slug generator is idempotent, in both variants: a slug is a fixed point of
  \<open>generateSlug\<close>.
\<close>

theorem generateSlug_idempotent:
  "generateSlug (generateSlug T) = generateSlug T
   \<and> generateSlug_v2 (generateSlug_v2 T) = generateSlug_v2 T"
  by (simp add: slug_v1_v2 slug_v2_spec slug_spec_fix)

theorem generateSlug_idempotent_witness:
  "generateSlug (generateSlug ''Tech Meetup: 2024!'') = generateSlug ''Tech Meetup: 2024!''
   \<and> generateSlug ''Tech Meetup: 2024!'' = ''tech-meetup-2024''"
proof -
  have "generateSlug ''Tech Meetup: 2024!'' = ''tech-meetup-2024''" by code_simp
  then show ?thesis using generateSlug_idempotent[of "''Tech Meetup: 2024!''"] by simp
qed

section \<open>Properties of the time normalizer\<close>

lemma recognisesD: "recognises M L \<Longrightarrow> ((a, r) \<in> set (M s)) = (s = a @ r \<and> a \<in> L)"
  by (simp add: recognises_def)

lemma rec_one: "recognises (one P) {[c] | c. P c}"
  by (auto simp: recognises_def one_def split: list.splits)

lemma rec_lit: "recognises (lit c) {[c]}"
  using rec_one[of "\<lambda>x. x = c"] by (simp add: lit_def)

lemma rec_among: "recognises (among cs) {[c] | c. c \<in> set cs}"
  using rec_one[of "\<lambda>x. x \<in> set cs"] by (simp add: among_def)

lemma rec_seq:
  assumes "recognises p A" "recognises q B"
  shows "recognises (seq p q) {a @ b | a b. a \<in> A \<and> b \<in> B}"
  unfolding recognises_def
proof (intro allI)
  fix s x r
  have "((x, r) \<in> set (seq p q s)) = (\<exists>a r1 b. (a, r1) \<in> set (p s) \<and> (b, r) \<in> set (q r1) \<and> x = a @ b)"
    by (force simp: seq_def)
  also have "\<dots> = (\<exists>a r1 b. s = a @ r1 \<and> a \<in> A \<and> r1 = b @ r \<and> b \<in> B \<and> x = a @ b)"
    by (simp add: recognisesD[OF assms(1)] recognisesD[OF assms(2)])
  also have "\<dots> = (\<exists>a b. s = a @ b @ r \<and> a \<in> A \<and> b \<in> B \<and> x = a @ b)"
    by blast
  also have "\<dots> = (s = x @ r \<and> (\<exists>a b. x = a @ b \<and> a \<in> A \<and> b \<in> B))"
  proof
    assume "\<exists>a b. s = a @ b @ r \<and> a \<in> A \<and> b \<in> B \<and> x = a @ b"
    then obtain a b where "s = a @ b @ r" "a \<in> A" "b \<in> B" "x = a @ b" by blast
    then show "s = x @ r \<and> (\<exists>a b. x = a @ b \<and> a \<in> A \<and> b \<in> B)" by (simp, blast)
  next
    assume "s = x @ r \<and> (\<exists>a b. x = a @ b \<and> a \<in> A \<and> b \<in> B)"
    then obtain a b where "s = x @ r" "x = a @ b" "a \<in> A" "b \<in> B" by blast
    then have "s = a @ b @ r \<and> a \<in> A \<and> b \<in> B \<and> x = a @ b" by simp
    then show "\<exists>a b. s = a @ b @ r \<and> a \<in> A \<and> b \<in> B \<and> x = a @ b" by blast
  qed
  also have "\<dots> = (s = x @ r \<and> x \<in> {a @ b | a b. a \<in> A \<and> b \<in> B})"
    by simp
  finally show "((x, r) \<in> set (seq p q s)) = (s = x @ r \<and> x \<in> {a @ b | a b. a \<in> A \<and> b \<in> B})" .
qed

lemma rec_alt: "recognises p A \<Longrightarrow> recognises q B \<Longrightarrow> recognises (alt p q) (A \<union> B)"
  by (auto simp: recognises_def alt_def)

lemma rec_opt: "recognises p A \<Longrightarrow> recognises (opt p) (A \<union> {[]})"
  by (auto simp: recognises_def opt_def)

lemma in_map_cons: "((a, r) \<in> (\<lambda>(a, r). (c # a, r)) ` S) = (\<exists>a'. a = c # a' \<and> (a', r) \<in> S)"
  by force

lemma many_set_Cons: "((a, r) \<in> set (many P (c # cs))) =
    ((P c \<and> (\<exists>a'. a = c # a' \<and> (a', r) \<in> set (many P cs))) \<or> (a = [] \<and> r = c # cs))"
  by (auto simp add: in_map_cons)

lemma many_set_Nil: "((a, r) \<in> set (many P [])) = ([] = a @ r \<and> list_all P a)"
  by auto

lemma many_set: "((a, r) \<in> set (many P s)) = (s = a @ r \<and> list_all P a)"
proof (induction s arbitrary: a)
  case Nil
  show ?case by (rule many_set_Nil)
next
  case (Cons c cs)
  show ?case
  proof (cases a)
    case Nil
    have "((a, r) \<in> set (many P (c # cs))) = (r = c # cs)"
      by (simp only: many_set_Cons Nil) simp
    then show ?thesis using Nil by auto
  next
    case c2: (Cons x xs)
    have "((a, r) \<in> set (many P (c # cs))) = (P c \<and> x = c \<and> (xs, r) \<in> set (many P cs))"
      by (simp only: many_set_Cons c2) auto
    also have "\<dots> = (P c \<and> x = c \<and> cs = xs @ r \<and> list_all P xs)"
      by (simp only: Cons.IH)
    also have "\<dots> = (c # cs = a @ r \<and> list_all P a)"
      using c2 by auto
    finally show ?thesis .
  qed
qed

lemma rec_many: "recognises (many P) {w. list_all P w}"
  by (simp add: recognises_def many_set)

lemma test_whole_rec: "recognises M L \<Longrightarrow> test_whole M s = (s \<in> L)"
  by (auto simp: test_whole_def list_ex_iff recognisesD)

lemma first_match_unique:
  assumes "x \<in> set xs" and "\<And>y. y \<in> set xs \<Longrightarrow> y = x"
  shows "first_match xs = Some x"
proof (cases xs)
  case Nil
  with assms(1) show ?thesis by simp
next
  case (Cons a as)
  then have "a \<in> set xs" by simp
  then have "a = x" by (rule assms(2))
  with Cons show ?thesis by (simp add: first_match_def)
qed

lemma first_match_None: "(first_match xs = None) = (set xs = {})"
  by (cases xs) (auto simp: first_match_def)

lemma first_match_SomeD: "first_match xs = Some x \<Longrightarrow> x \<in> set xs"
  by (cases xs) (auto simp: first_match_def)

lemma code_digit_char: "n < 10 \<Longrightarrow> code (digit_char n) = 48 + n"
  by (simp add: digit_char_def code_def)

lemma isDigit_digit_char: "n < 10 \<Longrightarrow> isDigit (digit_char n)"
  by (simp add: isDigit_def code_digit_char)

lemma digit_value_digit_char: "n < 10 \<Longrightarrow> digit_value (digit_char n) = n"
  by (simp add: digit_value_def code_digit_char)

lemma digit_char_digit_value: "isDigit c \<Longrightarrow> digit_char (digit_value c) = c"
proof -
  assume "isDigit c"
  then have "48 + (code c - 48) = code c" by (simp add: isDigit_def)
  then have "char_of (48 + (code c - 48)) = char_of (code c)" by (rule arg_cong)
  then show ?thesis by (simp only: digit_char_def digit_value_def code_def char_of_char)
qed

lemma isDigit_iff: "isDigit c = (\<exists>n<10. c = digit_char n)"
proof
  assume a: "isDigit c"
  then have "digit_value c < 10" by (auto simp: isDigit_def digit_value_def)
  with a show "\<exists>n<10. c = digit_char n" using digit_char_digit_value by metis
next
  assume "\<exists>n<10. c = digit_char n"
  then show "isDigit c" using isDigit_digit_char by blast
qed

lemma char_eq_digit: "n < 10 \<Longrightarrow> (c = digit_char n) = (code c = 48 + n)"
  by (metis code_def code_digit_char of_char_eq_iff)

lemma digit_chars:
  "CHR ''0'' = digit_char 0" "CHR ''1'' = digit_char 1" "CHR ''2'' = digit_char 2"
  "CHR ''3'' = digit_char 3" "CHR ''4'' = digit_char 4" "CHR ''5'' = digit_char 5"
  by (simp_all add: char_eq_digit code_def)

lemma digit_char_inj: "a < 10 \<Longrightarrow> b < 10 \<Longrightarrow> (digit_char a = digit_char b) = (a = b)"
  by (metis digit_value_digit_char)

lemma among_digits_iff:
  "(c \<in> set ''01'') = (\<exists>n<2. c = digit_char n)"
  "(c \<in> set ''012'') = (\<exists>n<3. c = digit_char n)"
  "(c \<in> set ''0123'') = (\<exists>n<4. c = digit_char n)"
  "(c \<in> set ''012345'') = (\<exists>n<6. c = digit_char n)"
  by (auto simp: digit_chars less_Suc_eq eval_nat_numeral)

lemma two_digits_pair: "a < 10 \<Longrightarrow> b < 10 \<Longrightarrow> [digit_char a, digit_char b] = two_digits (10 * a + b)"
  by (simp add: two_digits_def)

lemma seq_one_one:
  "seq (one P) (one Q) s = (case s of c # d # r \<Rightarrow> if P c \<and> Q d then [([c, d], r)] else [] | _ \<Rightarrow> [])"
  by (simp add: seq_def one_def split: list.splits)

lemma rec_pair: "recognises (seq (one P) (one Q)) {[c, d] | c d. P c \<and> Q d}"
  by (auto simp: recognises_def seq_one_one split: list.splits)

lemma lang_tens:
  assumes "k \<le> 10"
  shows "{[c, d] | c d. (\<exists>n<k. c = digit_char n) \<and> isDigit d} = {two_digits h | h. h < 10 * k}"
proof (intro equalityI subsetI)
  fix x assume "x \<in> {[c, d] | c d. (\<exists>n<k. c = digit_char n) \<and> isDigit d}"
  then obtain a b where ab: "x = [digit_char a, digit_char b]" "a < k" "b < 10"
    unfolding isDigit_iff by blast
  with assms have "x = two_digits (10 * a + b)" "10 * a + b < 10 * k"
    by (simp_all add: two_digits_pair)
  then show "x \<in> {two_digits h | h. h < 10 * k}" by blast
next
  fix x assume "x \<in> {two_digits h | h. h < 10 * k}"
  then obtain h where h: "x = two_digits h" "h < 10 * k" by blast
  then have "h div 10 < k" "h mod 10 < 10" by auto
  then have "\<exists>n<k. digit_char (h div 10) = digit_char n" "isDigit (digit_char (h mod 10))"
    unfolding isDigit_iff by blast+
  with h show "x \<in> {[c, d] | c d. (\<exists>n<k. c = digit_char n) \<and> isDigit d}"
    unfolding two_digits_def by blast
qed

lemma lang_units:
  assumes "a < 10" "k \<le> 10"
  shows "{[c, d] | c d. c = digit_char a \<and> (\<exists>n<k. d = digit_char n)}
     = {two_digits h | h. 10 * a \<le> h \<and> h < 10 * a + k}"
proof (intro equalityI subsetI)
  fix x assume "x \<in> {[c, d] | c d. c = digit_char a \<and> (\<exists>n<k. d = digit_char n)}"
  then obtain b where ab: "x = [digit_char a, digit_char b]" "b < k" by blast
  with assms have "x = two_digits (10 * a + b)" "10 * a \<le> 10 * a + b" "10 * a + b < 10 * a + k"
    by (simp_all add: two_digits_pair)
  then show "x \<in> {two_digits h | h. 10 * a \<le> h \<and> h < 10 * a + k}" by blast
next
  fix x assume "x \<in> {two_digits h | h. 10 * a \<le> h \<and> h < 10 * a + k}"
  then obtain h where h: "x = two_digits h" "10 * a \<le> h" "h < 10 * a + k" by blast
  define b where "b = h - 10 * a"
  with h assms have hb: "h = 10 * a + b" "b < k" "b < 10" by auto
  then have "h div 10 = a" "h mod 10 < k" by auto
  with h show "x \<in> {[c, d] | c d. c = digit_char a \<and> (\<exists>n<k. d = digit_char n)}"
    unfolding two_digits_def by blast
qed

lemma lang_2x: "{[c, d] | c d. c = CHR ''2'' \<and> d \<in> set ''0123''} = {two_digits h | h. 20 \<le> h \<and> h < 24}"
  apply (simp only: among_digits_iff)
  apply (simp only: digit_chars)
  using lang_units[of 2 4] by simp

lemma lang_1x: "{[c, d] | c d. c = CHR ''1'' \<and> d \<in> set ''012''} = {two_digits h | h. 10 \<le> h \<and> h < 13}"
  apply (simp only: among_digits_iff)
  apply (simp only: digit_chars)
  using lang_units[of 1 3] by simp

lemma set_union_image: "{f h | h. P h} \<union> {f h | h. Q h} = {f h | h. P h \<or> Q h}"
  by blast

lemma seq_opt_lit_one:
  "seq (opt (lit z)) (one Q) [] = []"
  "seq (opt (lit z)) (one Q) [c] = (if Q c then [([c], [])] else [])"
  "seq (opt (lit z)) (one Q) (c # d # r) =
     (if c = z \<and> Q d then [([c, d], r)] else []) @ (if Q c then [([c], d # r)] else [])"
  by (simp_all add: seq_def opt_def lit_def one_def)

lemma rec_opt_lit_one:
  "recognises (seq (opt (lit z)) (one Q)) ({[c, d] | c d. c = z \<and> Q d} \<union> {[c] | c. Q c})"
  unfolding recognises_def
proof (intro allI)
  fix s a r
  show "((a, r) \<in> set (seq (opt (lit z)) (one Q) s)) =
        (s = a @ r \<and> a \<in> {[c, d] |c d. c = z \<and> Q d} \<union> {[c] |c. Q c})"
  proof (cases s)
    case Nil
    then show ?thesis by (simp add: seq_opt_lit_one)
  next
    case s1: (Cons c s1)
    show ?thesis
    proof (cases s1)
      case Nil
      with s1 show ?thesis by (auto simp add: seq_opt_lit_one)
    next
      case (Cons d s2)
      with s1 show ?thesis by (auto simp add: seq_opt_lit_one)
    qed
  qed
qed

lemma rec_hour24: "recognises hour24_re {two_digits h | h. h < 24}"
proof -
  have "recognises (seq (among ''01'') (one isDigit)) {[c, d] | c d. c \<in> set ''01'' \<and> isDigit d}"
    unfolding among_def by (rule rec_pair)
  then have 1: "recognises (seq (among ''01'') (one isDigit)) {two_digits h | h. h < 20}"
    using lang_tens[of 2] by (simp only: among_digits_iff) simp
  have "recognises (seq (lit CHR ''2'') (among ''0123'')) {[c, d] | c d. c = CHR ''2'' \<and> d \<in> set ''0123''}"
    unfolding among_def lit_def by (rule rec_pair)
  then have 2: "recognises (seq (lit CHR ''2'') (among ''0123'')) {two_digits h | h. 20 \<le> h \<and> h < 24}"
    by (simp only: lang_2x)
  have "\<And>h::nat. (h < 20 \<or> 20 \<le> h \<and> h < 24) = (h < 24)" by auto
  then have "{two_digits h | h. h < 20} \<union> {two_digits h | h. 20 \<le> h \<and> h < 24} = {two_digits h | h. h < (24::nat)}"
    by (simp add: set_union_image)
  then show ?thesis using rec_alt[OF 1 2] by (simp add: hour24_re_def)
qed

lemma rec_minute: "recognises minute_re {two_digits m | m. m < 60}"
proof -
  have "recognises minute_re {[c, d] | c d. c \<in> set ''012345'' \<and> isDigit d}"
    unfolding among_def minute_re_def by (rule rec_pair)
  then show ?thesis using lang_tens[of 6] by (simp only: among_digits_iff) simp
qed

lemma rec_period: "recognises period_re {[a, b] | a b. a \<in> set ''AaPp'' \<and> b \<in> set ''Mm''}"
  unfolding among_def period_re_def by (rule rec_pair)

lemma dec_small: "n < 10 \<Longrightarrow> dec n = [digit_char n]"
  by (subst dec.simps) simp

lemma dec_two: "10 \<le> n \<Longrightarrow> n < 100 \<Longrightarrow> dec n = two_digits n"
  by (subst dec.simps) (simp add: two_digits_def dec_small)

lemma lang_0x: "{[c, d] | c d. c = CHR ''0'' \<and> isDigit d} = {two_digits h | h. h < 10}"
  apply (simp only: isDigit_iff)
  apply (simp only: digit_chars)
  using lang_units[of 0 10] by simp

lemma lang_x: "{[c] | c. isDigit c} = {dec h | h. h < 10}"
  unfolding isDigit_iff by (metis dec_small)

lemma rec_hour: "recognises hour_re ({two_digits h | h. h \<le> 12} \<union> {dec h | h. h < 10})"
proof -
  have "recognises (seq (lit CHR ''1'') (among ''012'')) {[c, d] | c d. c = CHR ''1'' \<and> d \<in> set ''012''}"
    unfolding among_def lit_def by (rule rec_pair)
  then have 1: "recognises (seq (lit CHR ''1'') (among ''012'')) {two_digits h | h. 10 \<le> h \<and> h < 13}"
    by (simp only: lang_1x)
  have 2: "recognises (seq (opt (lit CHR ''0'')) (one isDigit)) ({two_digits h | h. h < 10} \<union> {dec h | h. h < 10})"
    using rec_opt_lit_one[of "CHR ''0''" isDigit] by (simp only: lang_0x lang_x)
  have "\<And>h::nat. (10 \<le> h \<and> h < 13 \<or> h < 10) = (h \<le> 12)" by auto
  then have "{two_digits h | h. 10 \<le> h \<and> h < 13} \<union> {two_digits h | h. h < 10} = {two_digits h | h. h \<le> (12::nat)}"
    by (simp add: set_union_image)
  then have "{two_digits h | h. 10 \<le> h \<and> h < 13} \<union> ({two_digits h | h. h < 10} \<union> {dec h | h. h < 10})
     = {two_digits h | h. h \<le> 12} \<union> {dec h | h. h < 10}"
    by (simp only: Un_assoc[symmetric])
  then show ?thesis using rec_alt[OF 1 2] by (simp only: hour_re_def)
qed

lemma hhmm_whole:
  "test_whole hhmm_re t = (\<exists>h m. h < 24 \<and> m < 60 \<and> t = two_digits h @ '':'' @ two_digits m)"
proof -
  have "recognises hhmm_re {a @ b | a b. a \<in> {two_digits h | h. h < 24}
          \<and> b \<in> {a @ b | a b. a \<in> {[CHR '':'']} \<and> b \<in> {two_digits m | m. m < 60}}}"
    unfolding hhmm_re_def by (intro rec_seq rec_hour24 rec_lit rec_minute)
  then show ?thesis by (simp add: test_whole_rec) blast
qed

lemma in_bind: "(z \<in> set (concat (map (\<lambda>(a, r). F a r) xs))) = (\<exists>a r. (a, r) \<in> set xs \<and> z \<in> set (F a r))"
  by (induction xs) auto

lemma in_guard: "(z \<in> set (if b then [x] else [])) = (b \<and> z = x)"
  by (cases b) auto

lemma matches_v2_raw:
  "((h, m, p) \<in> set (twelveHour_matches_v2 t)) =
    (\<exists>r1 c r2 r3 w r4. (h, r1) \<in> set (hour_re t) \<and> (c, r2) \<in> set (lit CHR '':'' r1)
       \<and> (m, r3) \<in> set (minute_re r2) \<and> (w, r4) \<in> set (many isWhiteSpace r3) \<and> (p, []) \<in> set (period_re r4))"
  unfolding twelveHour_matches_v2_def
  apply (simp only: in_bind in_guard)
  by blast

lemma decomposition_v2:
  "(\<exists>r1 c r2 r3 w r4. (t = h @ r1 \<and> h \<in> LH) \<and> (r1 = c @ r2 \<and> c \<in> {[CHR '':'']})
      \<and> (r2 = m @ r3 \<and> m \<in> LM) \<and> (r3 = w @ r4 \<and> list_all P w) \<and> (r4 = p @ [] \<and> p \<in> LP))
   = (\<exists>w. t = h @ '':'' @ m @ w @ p \<and> h \<in> LH \<and> m \<in> LM \<and> list_all P w \<and> p \<in> LP)"
  by auto

lemma matches_v2_iff:
  "((h, m, p) \<in> set (twelveHour_matches_v2 t)) =
     (\<exists>w. t = h @ '':'' @ m @ w @ p
        \<and> h \<in> {two_digits h | h. h \<le> 12} \<union> {dec h | h. h < 10}
        \<and> m \<in> {two_digits m | m. m < 60} \<and> list_all isWhiteSpace w
        \<and> p \<in> {[a, b] | a b. a \<in> set ''AaPp'' \<and> b \<in> set ''Mm''})"
  unfolding matches_v2_raw
  apply (simp only: recognisesD[OF rec_hour] recognisesD[OF rec_lit] recognisesD[OF rec_minute]
        recognisesD[OF rec_period] many_set)
  by (rule decomposition_v2)

lemma in_bind_many_end:
  "(z \<in> set (concat (map (\<lambda>(w, r). if r = [] then [x] else []) (many P s)))) = (list_all P s \<and> z = x)"
  by (simp only: in_bind in_guard many_set) auto

lemma matches_raw:
  "((h, m, p) \<in> set (twelveHour_matches t)) =
    (\<exists>w0 r0 r1 c r2 r3 w r4 r5 w2. (w0, r0) \<in> set (many isWhiteSpace t) \<and> (h, r1) \<in> set (hour_re r0) \<and> (c, r2) \<in> set (lit CHR '':'' r1)
       \<and> (m, r3) \<in> set (minute_re r2) \<and> (w, r4) \<in> set (many isWhiteSpace r3) \<and> (p, r5) \<in> set (period_re r4)
       \<and> (w2, []) \<in> set (many isWhiteSpace r5))"
  unfolding twelveHour_matches_def
  apply (simp only: in_bind in_guard)
  by blast

lemma decomposition_v1:
  "(\<exists>w0 r0 r1 c r2 r3 w r4 r5 w2. (t = w0 @ r0 \<and> list_all P w0) \<and> (r0 = h @ r1 \<and> h \<in> LH) \<and> (r1 = c @ r2 \<and> c \<in> {[CHR '':'']})
      \<and> (r2 = m @ r3 \<and> m \<in> LM) \<and> (r3 = w @ r4 \<and> list_all P w) \<and> (r4 = p @ r5 \<and> p \<in> LP) \<and> (r5 = w2 @ [] \<and> list_all P w2))
   = (\<exists>w0 w w2. t = w0 @ h @ '':'' @ m @ w @ p @ w2 \<and> list_all P w0 \<and> h \<in> LH \<and> m \<in> LM \<and> list_all P w \<and> p \<in> LP \<and> list_all P w2)"
  (is "?L = ?R")
proof
  assume ?L
  then show ?R by auto
next
  assume ?R
  then obtain w0 w w2 where f: "t = w0 @ h @ '':'' @ m @ w @ p @ w2" "list_all P w0" "h \<in> LH" "m \<in> LM"
    "list_all P w" "p \<in> LP" "list_all P w2" by blast
  show ?L
    apply (rule exI[where x=w0])
    apply (rule exI[where x="h @ '':'' @ m @ w @ p @ w2"])
    apply (rule exI[where x="'':'' @ m @ w @ p @ w2"])
    apply (rule exI[where x="'':''"])
    apply (rule exI[where x="m @ w @ p @ w2"])
    apply (rule exI[where x="w @ p @ w2"])
    apply (rule exI[where x=w])
    apply (rule exI[where x="p @ w2"])
    apply (rule exI[where x=w2])
    apply (rule exI[where x=w2])
    using f by simp
qed

lemma matches_iff:
  "((h, m, p) \<in> set (twelveHour_matches t)) =
     (\<exists>w0 w w2. t = w0 @ h @ '':'' @ m @ w @ p @ w2 \<and> list_all isWhiteSpace w0
        \<and> h \<in> {two_digits h | h. h \<le> 12} \<union> {dec h | h. h < 10}
        \<and> m \<in> {two_digits m | m. m < 60} \<and> list_all isWhiteSpace w
        \<and> p \<in> {[a, b] | a b. a \<in> set ''AaPp'' \<and> b \<in> set ''Mm''} \<and> list_all isWhiteSpace w2)"
  unfolding matches_raw
  apply (simp only: recognisesD[OF rec_hour] recognisesD[OF rec_lit] recognisesD[OF rec_minute]
        recognisesD[OF rec_period] many_set)
  by (rule decomposition_v1)

lemma two_digits_isDigit: "n < 100 \<Longrightarrow> list_all isDigit (two_digits n)"
  by (simp add: two_digits_def isDigit_digit_char)

lemma hours12_digits: "h \<in> hours12 \<Longrightarrow> list_all isDigit h"
  by (auto simp: two_digits_isDigit dec_small isDigit_digit_char)

lemma colon_not_digit: "\<not> isDigit CHR '':''"
  by (simp add: isDigit_def code_def)

lemma takeWhile_prefix: "list_all P h \<Longrightarrow> \<not> P c \<Longrightarrow> takeWhile P (h @ c # r) = h"
  by (induction h) auto

lemma hour_unique:
  assumes "h @ '':'' @ x = h' @ '':'' @ x'" "h \<in> hours12" "h' \<in> hours12"
  shows "h = h' \<and> x = x'"
proof -
  have "takeWhile isDigit (h @ CHR '':'' # x) = h" "takeWhile isDigit (h' @ CHR '':'' # x') = h'"
    using assms(2,3) by (simp_all only: takeWhile_prefix[OF hours12_digits colon_not_digit])
  with assms(1) have "h = h'" by simp
  with assms(1) show ?thesis by simp
qed

lemma minutes60_length: "m \<in> minutes60 \<Longrightarrow> length m = 2"
  by (auto simp: two_digits_def)

lemma periods_length: "p \<in> periods \<Longrightarrow> length p = 2"
  by auto

lemma decomposition_unique:
  assumes "h @ '':'' @ m @ w @ p = h' @ '':'' @ m' @ w' @ p'"
    "h \<in> hours12" "h' \<in> hours12" "m \<in> minutes60" "m' \<in> minutes60" "p \<in> periods" "p' \<in> periods"
  shows "h = h' \<and> m = m' \<and> p = p'"
proof -
  from hour_unique[OF assms(1-3)] have h: "h = h'" and 1: "m @ w @ p = m' @ w' @ p'" by simp_all
  have "length m = length m'" using assms(4,5) minutes60_length by simp
  with 1 have m: "m = m'" and 2: "w @ p = w' @ p'" by simp_all
  have "length p = length p'" using assms(6,7) periods_length by simp
  with 2 have "p = p'" by simp
  with h m show ?thesis by simp
qed

lemma exec_v2_Some:
  assumes "t = h @ '':'' @ m @ w @ p" "h \<in> hours12" "m \<in> minutes60" "list_all isWhiteSpace w" "p \<in> periods"
  shows "twelveHour_exec_v2 t = Some (h, m, p)"
  unfolding twelveHour_exec_v2_def
proof (rule first_match_unique)
  show "(h, m, p) \<in> set (twelveHour_matches_v2 t)"
    unfolding matches_v2_iff using assms by blast
next
  fix y assume y: "y \<in> set (twelveHour_matches_v2 t)"
  obtain h' m' p' where yy: "y = (h', m', p')" by (cases y) auto
  with y have "(h', m', p') \<in> set (twelveHour_matches_v2 t)" by simp
  then obtain w' where d: "t = h' @ '':'' @ m' @ w' @ p'" "h' \<in> hours12" "m' \<in> minutes60" "p' \<in> periods"
    unfolding matches_v2_iff by blast
  from decomposition_unique[of h m w p h' m' w' p'] assms d have "h = h' \<and> m = m' \<and> p = p'" by simp
  with yy show "y = (h, m, p)" by simp
qed

lemma exec_v2_SomeD:
  assumes "twelveHour_exec_v2 t = Some (h, m, p)"
  shows "\<exists>w. t = h @ '':'' @ m @ w @ p \<and> h \<in> hours12 \<and> m \<in> minutes60 \<and> list_all isWhiteSpace w \<and> p \<in> periods"
  using first_match_SomeD[OF assms[unfolded twelveHour_exec_v2_def]] unfolding matches_v2_iff .

lemma trim_no_lead: "trim s \<noteq> c # r \<or> \<not> isWhiteSpace c"
proof (cases "isWhiteSpace c")
  case True
  have "trim s \<noteq> c # r"
  proof
    assume a: "trim s = c # r"
    define u where "u = dropWhile isWhiteSpace s"
    have "rev (takeWhile isWhiteSpace (rev u) @ dropWhile isWhiteSpace (rev u)) = u" by simp
    then have "trim s @ rev (takeWhile isWhiteSpace (rev u)) = u"
      by (simp only: rev_append trim_def u_def)
    with a have "dropWhile isWhiteSpace s = c # r @ rev (takeWhile isWhiteSpace (rev u))"
      by (simp add: u_def)
    then have "\<not> isWhiteSpace c" by (simp add: dropWhile_eq_Cons_conv)
    with True show False by simp
  qed
  then show ?thesis by simp
next
  case False
  then show ?thesis by simp
qed

lemma trim_no_trail: "trim s \<noteq> r @ [c] \<or> \<not> isWhiteSpace c"
proof (cases "isWhiteSpace c")
  case True
  have "trim s \<noteq> r @ [c]"
  proof
    assume a: "trim s = r @ [c]"
    then have "rev (trim s) = c # rev r" by simp
    then have "dropWhile isWhiteSpace (rev (dropWhile isWhiteSpace s)) = c # rev r"
      by (simp add: trim_def)
    then have "\<not> isWhiteSpace c" by (simp add: dropWhile_eq_Cons_conv)
    with True show False by simp
  qed
  then show ?thesis by simp
next
  case False
  then show ?thesis by simp
qed

lemma digit_not_white: "isDigit c \<Longrightarrow> \<not> isWhiteSpace c"
  by (auto simp: isDigit_def isWhiteSpace_def)

lemma digit_not_sign: "isDigit c \<Longrightarrow> [c] \<noteq> ''-'' \<and> [c] \<noteq> ''+''"
  by (auto simp: isDigit_def code_def)

lemma takeWhile_all: "list_all P xs \<Longrightarrow> takeWhile P xs = xs"
  by (induction xs) auto

lemma parseInt10_digits:
  assumes "list_all isDigit hs" "hs \<noteq> []"
  shows "parseInt10 hs = Some (int (digits_value hs))"
proof -
  obtain c cs where hs: "hs = c # cs" using assms(2) by (cases hs) auto
  with assms(1) have c: "isDigit c" by simp
  have 1: "dropWhile isWhiteSpace hs = hs" using hs digit_not_white[OF c] by simp
  have 2: "take 1 hs \<noteq> ''-''" "take 1 hs \<noteq> ''+''" using hs digit_not_sign[OF c] by simp_all
  show ?thesis
    unfolding parseInt10_def 1 Let_def using 2 assms by (simp add: takeWhile_all)
qed

lemma digits_value_two: "n < 100 \<Longrightarrow> digits_value (two_digits n) = n"
  by (simp add: digits_value_def two_digits_def digit_value_digit_char)

lemma digits_value_one: "n < 10 \<Longrightarrow> digits_value [digit_char n] = n"
  by (simp add: digits_value_def digit_value_digit_char)

lemma parseInt10_hours12:
  assumes "n \<le> 12" "hs = dec n \<or> hs = two_digits n"
  shows "parseInt10 hs = Some (int n) \<and> hs \<in> hours12"
proof (cases "n < 10")
  case True
  show ?thesis
  proof (cases "hs = two_digits n")
    case t: True
    have "parseInt10 (two_digits n) = Some (int (digits_value (two_digits n)))"
      using True by (intro parseInt10_digits two_digits_isDigit) (simp_all add: two_digits_def)
    with t True assms(1) show ?thesis by (auto simp: digits_value_two)
  next
    case False
    with assms(2) True have hs: "hs = [digit_char n]" by (simp add: dec_small)
    have "parseInt10 [digit_char n] = Some (int (digits_value [digit_char n]))"
      using True by (intro parseInt10_digits) (simp_all add: isDigit_digit_char)
    moreover have "hs = dec n" using hs True by (simp add: dec_small)
    then have "hs \<in> {dec h | h. h < 10}" using True by blast
    ultimately show ?thesis using hs True by (simp add: digits_value_one)
  qed
next
  case False
  with assms have hs: "hs = two_digits n" by (auto simp: dec_two)
  have "parseInt10 (two_digits n) = Some (int (digits_value (two_digits n)))"
    using assms(1) by (intro parseInt10_digits two_digits_isDigit) (simp_all add: two_digits_def)
  with hs assms(1) show ?thesis by (auto simp: digits_value_two)
qed

lemma hours12_D: "hs \<in> hours12 \<Longrightarrow> \<exists>n\<le>12. hs = dec n \<or> hs = two_digits n"
proof -
  assume "hs \<in> hours12"
  then consider n where "hs = two_digits n" "n \<le> 12" | n where "hs = dec n" "n < 10" by blast
  then show ?thesis
  proof cases
    case 1
    then show ?thesis by blast
  next
    case 2
    then have "n \<le> 12" by simp
    with 2 show ?thesis by blast
  qed
qed

lemma padStart2_dec: "k < 100 \<Longrightarrow> padStart2 (String_int (int k)) = two_digits k"
proof (cases "k < 10")
  case True
  then have "padStart2 (dec k) = [CHR ''0'', digit_char k]" by (simp add: padStart2_def dec_small)
  with True show ?thesis by (simp add: String_int_def two_digits_def digit_chars)
next
  case False
  assume "k < 100"
  with False have "dec k = two_digits k" by (simp add: dec_two)
  then show ?thesis by (simp add: String_int_def padStart2_def two_digits_def)
qed

lemma toLowerCase_period:
  "a \<in> set ''AaPp'' \<Longrightarrow> b \<in> set ''Mm'' \<Longrightarrow>
   toLowerCase [a, b] = (if a \<in> set ''Pp'' then ''pm'' else ''am'')"
proof -
  have "toLowerCase_char CHR ''A'' = CHR ''a''" "toLowerCase_char CHR ''a'' = CHR ''a''"
    "toLowerCase_char CHR ''P'' = CHR ''p''" "toLowerCase_char CHR ''p'' = CHR ''p''"
    "toLowerCase_char CHR ''M'' = CHR ''m''" "toLowerCase_char CHR ''m'' = CHR ''m''"
    by code_simp+
  then show "a \<in> set ''AaPp'' \<Longrightarrow> b \<in> set ''Mm'' \<Longrightarrow>
   toLowerCase [a, b] = (if a \<in> set ''Pp'' then ''pm'' else ''am'')"
    by (auto simp: toLowerCase_def)
qed

lemma convert12_eq:
  assumes "n \<le> 12" "hs = dec n \<or> hs = two_digits n" "a \<in> set ''AaPp''" "b \<in> set ''Mm''"
  shows "convert12 (hs, m, [a, b]) = two_digits (to24 n (a \<in> set ''Pp'')) @ '':'' @ m"
proof -
  have p: "parseInt10 hs = Some (int n)" using parseInt10_hours12[OF assms(1,2)] by simp
  have l: "toLowerCase [a, b] = (if a \<in> set ''Pp'' then ''pm'' else ''am'')"
    by (rule toLowerCase_period[OF assms(3,4)])
  have k: "to24 n (a \<in> set ''Pp'') < 100" using assms(1) by (simp add: to24_def)
  show ?thesis
  proof (cases "a \<in> set ''Pp''")
    case True
    then have "toLowerCase [a, b] = ''pm''" using l by simp
    then have "convert12 (hs, m, [a, b]) = padStart2 (String_int (int (to24 n True))) @ '':'' @ m"
      using p by (simp add: convert12_def to24_def Let_def)
    with True k show ?thesis by (simp add: padStart2_dec)
  next
    case False
    then have "toLowerCase [a, b] = ''am''" using l by simp
    then have "convert12 (hs, m, [a, b]) = padStart2 (String_int (int (to24 n False))) @ '':'' @ m"
      using p by (simp add: convert12_def to24_def Let_def)
    with False k show ?thesis by (simp add: padStart2_dec)
  qed
qed

lemma matches_trim:
  "((h, m, p) \<in> set (twelveHour_matches (trim s))) = ((h, m, p) \<in> set (twelveHour_matches_v2 (trim s)))"
proof
  assume "(h, m, p) \<in> set (twelveHour_matches (trim s))"
  then obtain w0 w w2 where d: "trim s = w0 @ h @ '':'' @ m @ w @ p @ w2" "list_all isWhiteSpace w0"
    "h \<in> hours12" "m \<in> minutes60" "list_all isWhiteSpace w" "p \<in> periods" "list_all isWhiteSpace w2"
    unfolding matches_iff by blast
  have w0: "w0 = []"
  proof (cases w0)
    case Nil
    then show ?thesis .
  next
    case (Cons c r)
    with d(1,2) have "trim s = c # (r @ h @ '':'' @ m @ w @ p @ w2)" "isWhiteSpace c" by simp_all
    then show ?thesis using trim_no_lead by blast
  qed
  have w2: "w2 = []"
  proof (cases "w2 = []")
    case True
    then show ?thesis .
  next
    case False
    then have "w2 = butlast w2 @ [last w2]" by simp
    then have "trim s = (w0 @ h @ '':'' @ m @ w @ p @ butlast w2) @ [last w2]"
      using d(1) by (metis append.assoc)
    moreover have "isWhiteSpace (last w2)" using d(7) False by (simp add: list_all_iff)
    ultimately show ?thesis using trim_no_trail by blast
  qed
  from d w0 w2 show "(h, m, p) \<in> set (twelveHour_matches_v2 (trim s))"
    unfolding matches_v2_iff by auto
next
  assume "(h, m, p) \<in> set (twelveHour_matches_v2 (trim s))"
  then obtain w where d: "trim s = h @ '':'' @ m @ w @ p"
    "h \<in> hours12" "m \<in> minutes60" "list_all isWhiteSpace w" "p \<in> periods"
    unfolding matches_v2_iff by blast
  then have "trim s = [] @ h @ '':'' @ m @ w @ p @ [] \<and> list_all isWhiteSpace []
        \<and> h \<in> hours12 \<and> m \<in> minutes60 \<and> list_all isWhiteSpace w \<and> p \<in> periods \<and> list_all isWhiteSpace []"
    by simp
  then show "(h, m, p) \<in> set (twelveHour_matches (trim s))"
    unfolding matches_iff by blast
qed

lemma matches_trim_set: "set (twelveHour_matches (trim s)) = set (twelveHour_matches_v2 (trim s))"
proof (intro equalityI subsetI)
  fix y assume "y \<in> set (twelveHour_matches (trim s))"
  then show "y \<in> set (twelveHour_matches_v2 (trim s))"
    using matches_trim[of "fst y" "fst (snd y)" "snd (snd y)" s] by simp
next
  fix y assume "y \<in> set (twelveHour_matches_v2 (trim s))"
  then show "y \<in> set (twelveHour_matches (trim s))"
    using matches_trim[of "fst y" "fst (snd y)" "snd (snd y)" s] by simp
qed

lemma exec_trim: "twelveHour_exec (trim s) = twelveHour_exec_v2 (trim s)"
proof (cases "twelveHour_exec_v2 (trim s)")
  case None
  then have "set (twelveHour_matches_v2 (trim s)) = {}"
    by (simp add: twelveHour_exec_v2_def first_match_None)
  then have "set (twelveHour_matches (trim s)) = {}" by (simp add: matches_trim_set)
  then have "twelveHour_exec (trim s) = None"
    by (simp only: twelveHour_exec_def first_match_None)
  with None show ?thesis by simp
next
  case (Some g)
  obtain h m p where g: "g = (h, m, p)" by (cases g) auto
  from Some g obtain w where d: "trim s = h @ '':'' @ m @ w @ p"
     "h \<in> hours12" "m \<in> minutes60" "list_all isWhiteSpace w" "p \<in> periods"
    using exec_v2_SomeD by blast
  have "twelveHour_exec (trim s) = Some (h, m, p)"
    unfolding twelveHour_exec_def
  proof (rule first_match_unique)
    show "(h, m, p) \<in> set (twelveHour_matches (trim s))"
      using first_match_SomeD[OF Some[unfolded twelveHour_exec_v2_def]] g
      by (simp add: matches_trim_set)
  next
    fix y assume "y \<in> set (twelveHour_matches (trim s))"
    then have y: "y \<in> set (twelveHour_matches_v2 (trim s))" by (simp add: matches_trim_set)
    obtain h' m' p' where yy: "y = (h', m', p')" by (cases y) auto
    with y have "(h', m', p') \<in> set (twelveHour_matches_v2 (trim s))" by simp
    then obtain w' where d': "trim s = h' @ '':'' @ m' @ w' @ p'" "h' \<in> hours12" "m' \<in> minutes60" "p' \<in> periods"
      unfolding matches_v2_iff by blast
    from decomposition_unique[of h m w p h' m' w' p'] d d' have "h = h' \<and> m = m' \<and> p = p'" by simp
    with yy show "y = (h, m, p)" by simp
  qed
  with Some g show ?thesis by simp
qed

lemma normalizeTime_v1_v2: "normalizeTime s = normalizeTime_v2 s"
  by (simp add: normalizeTime_def normalizeTime_v2_def exec_trim Let_def)

lemma normalize24: "time24_shape (trim s) \<Longrightarrow> normalizeTime_v2 s = Inr (trim s)"
  by (simp add: normalizeTime_v2_def hhmm_whole time24_shape_def Let_def)

lemma two_digits_length: "length (two_digits n) = 2"
  by (simp add: two_digits_def)

lemma dec_nonempty: "dec n \<noteq> []"
  by (subst dec.simps) simp

lemma normalize12:
  assumes "n \<le> 12" "m < 60" "hs = dec n \<or> hs = two_digits n" "list_all isWhiteSpace w"
    "a \<in> set ''AaPp''" "b \<in> set ''Mm''" "trim s = hs @ '':'' @ two_digits m @ w @ [a, b]"
  shows "normalizeTime_v2 s = Inr (two_digits (to24 n (a \<in> set ''Pp'')) @ '':'' @ two_digits m)"
proof -
  have hs: "hs \<in> hours12" using parseInt10_hours12[OF assms(1,3)] by simp
  have "two_digits n \<noteq> []" by (simp add: two_digits_def)
  then have "hs \<noteq> []" using assms(3) dec_nonempty[of n] by auto
  then have "length hs \<ge> 1" by (cases hs) auto
  then have "length (trim s) \<ge> 6" using assms(7) by (simp add: two_digits_length)
  moreover have "time24_shape (trim s) \<Longrightarrow> length (trim s) = 5"
    by (auto simp: time24_shape_def two_digits_length)
  ultimately have no24: "\<not> test_whole hhmm_re (trim s)"
    unfolding hhmm_whole time24_shape_def[symmetric] by auto
  have "twelveHour_exec_v2 (trim s) = Some (hs, two_digits m, [a, b])"
    using assms hs by (intro exec_v2_Some[where w=w]) auto
  with no24 show ?thesis
    using convert12_eq[OF assms(1,3,5,6)] by (simp add: normalizeTime_v2_def Let_def)
qed

lemma normalize_fail:
  assumes "\<not> time24_shape (trim s)" "\<not> time12_shape 0 (trim s)"
  shows "normalizeTime_v2 s = Inl InvalidTime"
proof (cases "twelveHour_exec_v2 (trim s)")
  case None
  with assms(1) show ?thesis by (simp add: normalizeTime_v2_def hhmm_whole time24_shape_def Let_def)
next
  case (Some g)
  obtain h m p where g: "g = (h, m, p)" by (cases g) auto
  from Some g obtain w where d: "trim s = h @ '':'' @ m @ w @ p"
     "h \<in> hours12" "m \<in> minutes60" "list_all isWhiteSpace w" "p \<in> periods"
    using exec_v2_SomeD by blast
  from hours12_D[OF d(2)] obtain n where n: "n \<le> 12" "h = dec n \<or> h = two_digits n" by blast
  from d(3) obtain mm where mm: "m = two_digits mm" "mm < 60" by blast
  from d(5) obtain a b where ab: "p = [a, b]" "a \<in> set ''AaPp''" "b \<in> set ''Mm''" by blast
  have "time12_shape 0 (trim s)"
    unfolding time12_shape_def using d(1,4) n mm ab by blast
  with assms(2) show ?thesis by simp
qed

text \<open>
  What both variants do on every input \<open>s\<close>, with \<open>t\<close> the input trimmed: if \<open>t\<close> is a
  24-hour time \<open>HH:mm\<close> (hours 00-23, minutes 00-59) the normalizer returns \<open>t\<close>; if
  \<open>t\<close> is a 12-hour time, that is an hour from 1 to 12 written with or without a leading
  zero, a colon, minutes 00-59, any white space (or none) and \<open>AM\<close> or \<open>PM\<close> in either
  case, the normalizer returns the 24-hour time, zero-padded (12 AM is 00, 12 PM is 12,
  other PM hours gain 12, other AM hours stay); an input that has neither the 24-hour
  shape nor the 12-hour shape with an hour up to 12 fails with \<open>InvalidTime\<close>. The four
  examples of the specification hold. Nothing is said here of the hour 0 in the 12-hour
  shape.
\<close>

lemma normalizeTime_shapes:
  "(time24_shape (trim s) \<longrightarrow> normalizeTime s = Inr (trim s) \<and> normalizeTime_v2 s = Inr (trim s))
   \<and> (1 \<le> n \<and> n \<le> 12 \<and> m < 60 \<and> (hs = dec n \<or> hs = two_digits n) \<and> list_all isWhiteSpace w
        \<and> a \<in> set ''AaPp'' \<and> b \<in> set ''Mm'' \<and> trim s = hs @ '':'' @ two_digits m @ w @ [a, b]
      \<longrightarrow> normalizeTime s = Inr (two_digits (to24 n (a \<in> set ''Pp'')) @ '':'' @ two_digits m)
        \<and> normalizeTime_v2 s = Inr (two_digits (to24 n (a \<in> set ''Pp'')) @ '':'' @ two_digits m))
   \<and> (\<not> time24_shape (trim s) \<and> \<not> time12_shape 0 (trim s)
      \<longrightarrow> normalizeTime s = Inl InvalidTime \<and> normalizeTime_v2 s = Inl InvalidTime)
   \<and> normalizeTime ''3:30 pm'' = Inr ''15:30'' \<and> normalizeTime_v2 ''3:30 pm'' = Inr ''15:30''
   \<and> normalizeTime ''12:00 am'' = Inr ''00:00'' \<and> normalizeTime_v2 ''12:00 am'' = Inr ''00:00''
   \<and> normalizeTime ''00:15'' = Inr ''00:15'' \<and> normalizeTime_v2 ''00:15'' = Inr ''00:15''
   \<and> normalizeTime ''13:61'' = Inl InvalidTime \<and> normalizeTime_v2 ''13:61'' = Inl InvalidTime"
proof -
  have 1: "time24_shape (trim s) \<longrightarrow> normalizeTime s = Inr (trim s) \<and> normalizeTime_v2 s = Inr (trim s)"
    by (simp add: normalizeTime_v1_v2 normalize24)
  have 2: "1 \<le> n \<and> n \<le> 12 \<and> m < 60 \<and> (hs = dec n \<or> hs = two_digits n) \<and> list_all isWhiteSpace w
        \<and> a \<in> set ''AaPp'' \<and> b \<in> set ''Mm'' \<and> trim s = hs @ '':'' @ two_digits m @ w @ [a, b]
      \<longrightarrow> normalizeTime s = Inr (two_digits (to24 n (a \<in> set ''Pp'')) @ '':'' @ two_digits m)
        \<and> normalizeTime_v2 s = Inr (two_digits (to24 n (a \<in> set ''Pp'')) @ '':'' @ two_digits m)"
    using normalize12[of n m hs w a b s] by (simp add: normalizeTime_v1_v2)
  have 3: "\<not> time24_shape (trim s) \<and> \<not> time12_shape 0 (trim s)
      \<longrightarrow> normalizeTime s = Inl InvalidTime \<and> normalizeTime_v2 s = Inl InvalidTime"
    by (simp add: normalizeTime_v1_v2 normalize_fail)
  have 4: "normalizeTime ''3:30 pm'' = Inr ''15:30''" "normalizeTime_v2 ''3:30 pm'' = Inr ''15:30''"
    "normalizeTime ''12:00 am'' = Inr ''00:00''" "normalizeTime_v2 ''12:00 am'' = Inr ''00:00''"
    "normalizeTime ''00:15'' = Inr ''00:15''" "normalizeTime_v2 ''00:15'' = Inr ''00:15''"
    "normalizeTime ''13:61'' = Inl InvalidTime" "normalizeTime_v2 ''13:61'' = Inl InvalidTime"
    by code_simp+
  from 1 2 3 4 show ?thesis by blast
qed

lemma normalizeTime_shapes_examples:
  "normalizeTime ''23:59'' = Inr ''23:59''
   \<and> normalizeTime '' 9:05 PM '' = Inr ''21:05''
   \<and> normalizeTime [] = Inl InvalidTime"
proof -
  have t1: "trim ''23:59'' = ''23:59''" and t2: "trim '' 9:05 PM '' = ''9:05 PM''" and t3: "trim [] = []"
    by code_simp+
  have d: "two_digits 23 = ''23''" "two_digits 59 = ''59''" "dec 9 = ''9''" "two_digits 5 = ''05''" "two_digits 21 = ''21''"
    by code_simp+
  have "time24_shape (trim ''23:59'')"
    unfolding time24_shape_def t1 using d(1,2) by (intro exI[of _ 23] exI[of _ 59]) simp
  then have a: "normalizeTime ''23:59'' = Inr ''23:59''"
    using normalizeTime_shapes[of "''23:59''"] t1 by simp
  have "(1::nat) \<le> 9 \<and> (9::nat) \<le> 12 \<and> (5::nat) < 60 \<and> (''9'' = dec 9 \<or> ''9'' = two_digits 9) \<and> list_all isWhiteSpace '' ''
        \<and> CHR ''P'' \<in> set ''AaPp'' \<and> CHR ''M'' \<in> set ''Mm''
        \<and> trim '' 9:05 PM '' = ''9'' @ '':'' @ two_digits 5 @ '' '' @ [CHR ''P'', CHR ''M'']"
    using d t2 by (simp add: isWhiteSpace_def code_def)
  then have b: "normalizeTime '' 9:05 PM '' = Inr ''21:05''"
    using normalizeTime_shapes[of "'' 9:05 PM ''" 9 5 "''9''" "'' ''" "CHR ''P''" "CHR ''M''"] d
    by (simp add: to24_def)
  have "\<not> time24_shape (trim []) \<and> \<not> time12_shape 0 (trim [])"
    unfolding t3 by (simp add: time24_shape_def time12_shape_def)
  then have c: "normalizeTime [] = Inl InvalidTime"
    using normalizeTime_shapes[of "[]"] by blast
  from a b c show ?thesis by simp
qed

lemma dec_eq_zero: "dec n = ''0'' \<Longrightarrow> n = 0"
proof (cases "n < 10")
  case True
  assume "dec n = ''0''"
  with True have "digit_char n = digit_char 0" by (simp add: dec_small digit_chars)
  with True show ?thesis by (simp add: digit_char_inj)
next
  case False
  assume a: "dec n = ''0''"
  have "dec n = dec (n div 10) @ [digit_char (n mod 10)]" using False by (subst dec.simps) simp
  with a have "dec (n div 10) = []" by simp
  then show ?thesis using dec_nonempty by simp
qed

text \<open>
  C1: the 12-hour shape has the hours 1 to 12, and an input of any other shape is to
  fail with \<open>InvalidTime\<close>. The code does not do that: the input \<open>0:30 pm\<close> has neither
  the 24-hour shape nor the 12-hour shape with an hour from 1 to 12, and both variants
  accept it and return \<open>12:30\<close>. The hour pattern \<open>(1[0-2]|0?\d)\<close> stops at 12 above and
  lets 0 and 00 through below.
\<close>

theorem normalizeTime_hour_zero_accepted:
  "\<not> time24_shape (trim ''0:30 pm'') \<and> \<not> time12_shape 1 (trim ''0:30 pm'')
   \<and> normalizeTime ''0:30 pm'' = Inr ''12:30'' \<and> normalizeTime_v2 ''0:30 pm'' = Inr ''12:30''"
proof -
  have t: "trim ''0:30 pm'' = ''0:30 pm''" by code_simp
  have 1: "\<not> time24_shape ''0:30 pm''"
  proof
    assume "time24_shape ''0:30 pm''"
    then obtain h m where "''0:30 pm'' = two_digits h @ '':'' @ two_digits m"
      unfolding time24_shape_def by blast
    then have "length ''0:30 pm'' = length (two_digits h @ '':'' @ two_digits m)" by simp
    then show False by (simp add: two_digits_length)
  qed
  have 2: "\<not> time12_shape 1 ''0:30 pm''"
  proof
    assume "time12_shape 1 ''0:30 pm''"
    then obtain n m hs w a b where f: "1 \<le> n" "n \<le> 12" "hs = dec n \<or> hs = two_digits n"
      "''0:30 pm'' = hs @ '':'' @ two_digits m @ w @ [a, b]"
      unfolding time12_shape_def by blast
    have "dec 0 = ''0''" by code_simp
    then have z: "''0'' \<in> hours12" using parseInt10_hours12[of 0 "''0''"] by simp
    have "hs \<in> hours12" using parseInt10_hours12[OF f(2,3)] by simp
    with hour_unique[of "''0''" "''30 pm''" hs "two_digits m @ w @ [a, b]"] z f(4)
    have "hs = ''0''" by simp
    with f(3) have "dec n = ''0''" by (auto simp: two_digits_def)
    then have "n = 0" by (rule dec_eq_zero)
    with f(1) show False by simp
  qed
  have 3: "normalizeTime ''0:30 pm'' = Inr ''12:30''" "normalizeTime_v2 ''0:30 pm'' = Inr ''12:30''"
    by code_simp+
  from 1 2 3 show ?thesis by (simp add: t)
qed

section \<open>Properties of the date normalizer\<close>

lemma dec_four: "1000 \<le> y \<Longrightarrow> y \<le> 9999 \<Longrightarrow> dec y = four_digits y"
proof -
  assume a: "1000 \<le> y" "y \<le> 9999"
  have 1: "dec y = dec (y div 10) @ [digit_char (y mod 10)]" using a by (subst dec.simps) simp
  have nb: "\<not> y div 10 < 10" using a by linarith
  have 2: "dec (y div 10) = dec (y div 10 div 10) @ [digit_char (y div 10 mod 10)]"
    using nb by (subst dec.simps) simp
  have "10 \<le> y div 10 div 10" "y div 10 div 10 < 100" using a by linarith+
  then have 3: "dec (y div 10 div 10) = two_digits (y div 10 div 10)" by (rule dec_two)
  show ?thesis unfolding 1 2 3 four_digits_def by (simp add: two_digits_def)
qed

lemma dec_three: "100 \<le> y \<Longrightarrow> y \<le> 999 \<Longrightarrow> length (dec y) = 3"
proof -
  assume a: "100 \<le> y" "y \<le> 999"
  have 1: "dec y = dec (y div 10) @ [digit_char (y mod 10)]" using a by (subst dec.simps) simp
  have "10 \<le> y div 10" "y div 10 < 100" using a by linarith+
  then have "dec (y div 10) = two_digits (y div 10)" by (rule dec_two)
  then show ?thesis unfolding 1 by (simp add: two_digits_def)
qed

lemma digits_value_four:
  "y \<le> 9999 \<Longrightarrow> digits_value (four_digits y) = y \<and> list_all isDigit (four_digits y)"
proof -
  assume y: "y \<le> 9999"
  have l: "y div 10 div 10 div 10 < 10" using y by linarith
  have "digits_value (four_digits y)
     = 10 * (10 * (10 * (y div 10 div 10 div 10) + y div 10 div 10 mod 10) + y div 10 mod 10) + y mod 10"
    using l by (simp add: four_digits_def digits_value_def digit_value_digit_char)
  also have "\<dots> = y" by simp
  finally show ?thesis using l by (simp add: four_digits_def isDigit_digit_char)
qed

lemma padStart2_dec_nat: "k < 100 \<Longrightarrow> padStart2 (dec k) = two_digits k"
  using padStart2_dec[of k] by (simp add: String_int_def)

lemma canonical_parts:
  "length (canonical_date y m d) = 10" "canonical_date y m d ! 4 = CHR ''-''"
  "canonical_date y m d ! 7 = CHR ''-''"
  "take 4 (canonical_date y m d) = four_digits y"
  "take 2 (drop 5 (canonical_date y m d)) = two_digits m"
  "drop 8 (canonical_date y m d) = two_digits d"
  by (simp_all add: canonical_date_def four_digits_def two_digits_def)

lemma normalizeDate_canonical:
  assumes "calendar_day y m d"
  shows "normalizeDate engine (canonical_date y m d)
     = Inr (dec y @ ''-'' @ two_digits m @ ''-'' @ two_digits d)"
proof -
  from assms(1) have r: "y \<le> 9999" "1 \<le> m" "m \<le> 12" "1 \<le> d" "d \<le> days_in_month y m"
    by (simp_all add: calendar_day_def)
  then have d31: "d < 100" "m < 100" by (auto simp: days_in_month_def split: if_splits)
  have "iso_calendar_date (canonical_date y m d)
     = Some \<lparr>utcFullYear = int y, utcMonth = m - 1, utcDate = d\<rparr>"
    unfolding iso_calendar_date_def canonical_parts Let_def
    using r d31 digits_value_four[OF r(1)] by (simp add: digits_value_two two_digits_isDigit)
  then have "normalizeDate engine (canonical_date y m d)
     = Inr (String_int (int y) @ ''-'' @ padStart2 (dec (m - 1 + 1)) @ ''-'' @ padStart2 (dec d))"
    by (simp add: normalizeDate_def new_Date_def Let_def)
  also have "String_int (int y) = dec y" by (simp add: String_int_def)
  also have "padStart2 (dec (m - 1 + 1)) = two_digits m" using r(2) d31(2) by (simp add: padStart2_dec_nat)
  also have "padStart2 (dec d) = two_digits d" using d31(1) by (simp add: padStart2_dec_nat)
  finally show ?thesis .
qed

lemma normalizeDate_canonical_from_1000:
  assumes "calendar_day y m d" "1000 \<le> y"
  shows "normalizeDate engine (canonical_date y m d) = Inr (canonical_date y m d)"
proof -
  from assms(1) have "y \<le> 9999" by (simp add: calendar_day_def)
  with assms(2) have "dec y = four_digits y" by (simp add: dec_four)
  then show ?thesis using normalizeDate_canonical[OF assms(1)] by (simp add: canonical_date_def)
qed

lemma normalizeDate_canonical_below_1000:
  assumes "calendar_day y m d" "y < 1000"
  shows "normalizeDate engine (canonical_date y m d) \<noteq> Inr (canonical_date y m d)"
proof
  assume "normalizeDate engine (canonical_date y m d) = Inr (canonical_date y m d)"
  then have "dec y @ ''-'' @ two_digits m @ ''-'' @ two_digits d = canonical_date y m d"
    using normalizeDate_canonical[OF assms(1), of engine] by simp
  then have "length (dec y @ ''-'' @ two_digits m @ ''-'' @ two_digits d) = 10"
    by (simp only: canonical_parts)
  then have 4: "length (dec y) = 4" by (simp add: two_digits_def)
  consider "y < 10" | "10 \<le> y" "y < 100" | "100 \<le> y" "y \<le> 999" using assms(2) by linarith
  then show False
  proof cases
    case 1
    then show False using 4 by (simp add: dec_small)
  next
    case 2
    then show False using 4 by (simp add: dec_two two_digits_def)
  next
    case 3
    then show False using 4 dec_three[of y] by simp
  qed
qed

text \<open>
  C7: a canonical date is a zero-padded \<open>YYYY-MM-DD\<close> of a calendar day, and normalizing
  one is to return it unchanged. From the year 1000 on the code does
  (\<open>normalizeDate_canonical_from_1000\<close>). Below 1000 it does not
  (\<open>normalizeDate_canonical_below_1000\<close>): the month and the day are padded with
  \<open>padStart\<close>, the year is printed as the number it is. The canonical \<open>0999-01-01\<close>
  comes back as \<open>999-01-01\<close>, which is not of the form \<open>YYYY-MM-DD\<close> the code
  announces.
\<close>

theorem normalizeDate_year_not_padded:
  "calendar_day 999 1 1 \<and> canonical_date 999 1 1 = ''0999-01-01''
   \<and> normalizeDate engine ''0999-01-01'' = Inr ''999-01-01''"
proof -
  have c: "calendar_day 999 1 1" by (simp add: calendar_day_def days_in_month_def)
  have "four_digits 999 = ''0999''" "two_digits 1 = ''01''" "dec 999 = ''999''" by code_simp+
  then have d: "canonical_date 999 1 1 = ''0999-01-01''"
    "dec 999 @ ''-'' @ two_digits 1 @ ''-'' @ two_digits 1 = ''999-01-01''"
    by (simp_all add: canonical_date_def)
  from normalizeDate_canonical[OF c, of engine] c d show ?thesis by simp
qed

section \<open>Properties of the connection manager\<close>

lemma connectDB_enter_Connecting:
  "state_of c = Connecting \<Longrightarrow> \<exists>p. promise c = Some p \<and> connectDB_enter c = (Awaiting p, c)"
  by (auto simp: connectDB_enter_def state_of_def split: option.splits)

lemma connectDB_enter_Connected:
  "state_of c = Connected \<Longrightarrow> \<exists>h. conn c = Some h \<and> connectDB_enter c = (Returned h, c)"
  by (auto simp: connectDB_enter_def state_of_def split: option.splits)

text \<open>
  C8: a call that finds no connection waits for the attempt in the cache, or for the one
  it starts. When that attempt is rejected with \<open>e\<close>, the call throws \<open>e\<close> and leaves the
  cache with no promise and no connection, which is the state Unconnected; it has started
  at most the one attempt, and none after the failure. The next call starts a new attempt.
  The same holds of a caller resumed after others have run: the promise is cleared, the
  rest of the cache is as it was.
\<close>

theorem connectDB_failure:
  "(conn c = None \<and> (case promise c of None \<Rightarrow> out (attempts c) | Some p \<Rightarrow> out p) = Inl e
     \<longrightarrow> fst (connectDB out c) = Inl e
       \<and> conn (snd (connectDB out c)) = None \<and> promise (snd (connectDB out c)) = None
       \<and> state_of (snd (connectDB out c)) = Unconnected
       \<and> attempts (snd (connectDB out c)) = attempts c + (if promise c = None then 1 else 0)
       \<and> connectDB_enter (snd (connectDB out c))
          = (Awaiting (attempts (snd (connectDB out c))),
             (snd (connectDB out c))\<lparr>promise := Some (attempts (snd (connectDB out c))),
                attempts := attempts (snd (connectDB out c)) + 1\<rparr>))
   \<and> (out p = Inl e \<longrightarrow> connectDB_resume out p c = (Inl e, c\<lparr>promise := None\<rparr>))"
  by (auto simp: connectDB_def connectDB_enter_def connectDB_resume_def state_of_def
      split: option.splits sum.splits)

theorem connectDB_failure_witness:
  "fst (connectDB (\<lambda>k. if k = 0 then Inl ''refused'' else Inr 1) \<lparr>conn = None, promise = None, attempts = 0\<rparr>)
     = Inl ''refused''
   \<and> snd (connectDB (\<lambda>k. if k = 0 then Inl ''refused'' else Inr 1) \<lparr>conn = None, promise = None, attempts = 0\<rparr>)
     = \<lparr>conn = None, promise = None, attempts = 1\<rparr>
   \<and> state_of \<lparr>conn = None, promise = None, attempts = 1\<rparr> = Unconnected
   \<and> connectDB (\<lambda>k. if k = 0 then Inl ''refused'' else Inr 1) \<lparr>conn = None, promise = None, attempts = 1\<rparr>
     = (Inr 1, \<lparr>conn = Some 1, promise = Some 1, attempts = 2\<rparr>)
   \<and> connectDB_resume (\<lambda>k. if k = 0 then Inl ''refused'' else Inr 1) 0
        \<lparr>conn = None, promise = Some 0, attempts = 1\<rparr>
     = (Inl ''refused'', \<lparr>conn = None, promise = None, attempts = 1\<rparr>)"
proof -
  let ?out = "\<lambda>k::nat. if k = 0 then Inl ''refused'' else (Inr 1 :: string + nat)"
  let ?c = "\<lparr>conn = None, promise = None, attempts = 0\<rparr>"
  let ?d = "\<lparr>conn = None, promise = Some 0, attempts = 1\<rparr>"
  have h: "conn ?c = None \<and> (case promise ?c of None \<Rightarrow> ?out (attempts ?c) | Some p \<Rightarrow> ?out p) = Inl ''refused''"
    by simp
  have o: "?out 0 = Inl ''refused''" by simp
  have s: "snd (connectDB ?out ?c) = \<lparr>conn = None, promise = None, attempts = 1\<rparr>"
    by (simp add: connectDB_def connectDB_enter_def connectDB_resume_def)
  have n: "connectDB ?out \<lparr>conn = None, promise = None, attempts = 1\<rparr>
     = (Inr 1, \<lparr>conn = Some 1, promise = Some 1, attempts = 2\<rparr>)"
    by (simp add: connectDB_def connectDB_enter_def connectDB_resume_def)
  note T = connectDB_failure[where c="?c" and out="?out" and e="''refused''"]
  note U = connectDB_failure[where c="?d" and out="?out" and e="''refused''" and p=0]
  have 1: "fst (connectDB ?out ?c) = Inl ''refused''"
    using T[THEN conjunct1, THEN mp, OF h] by (rule conjunct1)
  have 2: "state_of (snd (connectDB ?out ?c)) = Unconnected"
    using T[THEN conjunct1, THEN mp, OF h] by simp
  have 3: "connectDB_resume ?out 0 ?d = (Inl ''refused'', ?d\<lparr>promise := None\<rparr>)"
    using U[THEN conjunct2, THEN mp, OF o] .
  from 1 2 3 s n show ?thesis by simp
qed

text \<open>
  C9: two callers, with no connection and no attempt in the cache. A call runs without
  interruption up to its \<open>await\<close>, so the second caller enters after the first has
  entered and before either is resumed. The first starts the attempt; the second starts
  none and waits for the same promise; each is resumed with the outcome of that one
  attempt, the same handle or the same error, in either order; one attempt has been
  started when both are done, and after a success the handle is the cached connection.
\<close>

theorem connectDB_concurrent:
  "state_of c = Unconnected
   \<longrightarrow> fst (connectDB_enter c) = Awaiting (attempts c)
     \<and> fst (connectDB_enter (snd (connectDB_enter c))) = Awaiting (attempts c)
     \<and> snd (connectDB_enter (snd (connectDB_enter c))) = snd (connectDB_enter c)
     \<and> attempts (snd (connectDB_enter c)) = attempts c + 1
     \<and> state_of (snd (connectDB_enter c)) = Connecting
     \<and> fst (connectDB_resume out (attempts c) (snd (connectDB_enter c))) = out (attempts c)
     \<and> fst (connectDB_resume out (attempts c)
              (snd (connectDB_resume out (attempts c) (snd (connectDB_enter c))))) = out (attempts c)
     \<and> attempts (snd (connectDB_resume out (attempts c)
              (snd (connectDB_resume out (attempts c) (snd (connectDB_enter c))))))
        = attempts c + 1
     \<and> (out (attempts c) = Inr h
        \<longrightarrow> conn (snd (connectDB_resume out (attempts c)
              (snd (connectDB_resume out (attempts c) (snd (connectDB_enter c)))))) = Some h)"
  by (auto simp: connectDB_enter_def connectDB_resume_def state_of_def
      split: option.splits sum.splits)

theorem connectDB_concurrent_witness:
  "fst (connectDB_enter \<lparr>conn = None, promise = None, attempts = 0\<rparr>) = Awaiting 0
   \<and> fst (connectDB_enter (snd (connectDB_enter \<lparr>conn = None, promise = None, attempts = 0\<rparr>))) = Awaiting 0
   \<and> attempts (snd (connectDB_enter (snd (connectDB_enter \<lparr>conn = None, promise = None, attempts = 0\<rparr>)))) = 1
   \<and> fst (connectDB_resume (\<lambda>k. Inr 5) 0
        (snd (connectDB_enter \<lparr>conn = None, promise = None, attempts = 0\<rparr>))) = Inr 5
   \<and> connectDB_resume (\<lambda>k. Inr 5) 0
        (snd (connectDB_resume (\<lambda>k. Inr 5) 0 (snd (connectDB_enter \<lparr>conn = None, promise = None, attempts = 0\<rparr>))))
      = (Inr 5, \<lparr>conn = Some 5, promise = Some 0, attempts = 1\<rparr>)"
proof -
  let ?c = "\<lparr>conn = None, promise = None, attempts = 0\<rparr>"
  let ?out = "\<lambda>k::nat. (Inr 5 :: string + nat)"
  have h: "state_of ?c = Unconnected" by (simp add: state_of_def)
  have e: "connectDB_resume ?out 0 (snd (connectDB_resume ?out 0 (snd (connectDB_enter ?c))))
      = (Inr 5, \<lparr>conn = Some 5, promise = Some 0, attempts = 1\<rparr>)"
    by (simp add: connectDB_enter_def connectDB_resume_def)
  note T = connectDB_concurrent[where c="?c" and out="?out" and h=5, THEN mp, OF h]
  have 1: "fst (connectDB_enter ?c) = Awaiting 0" using T by simp
  have 2: "fst (connectDB_enter (snd (connectDB_enter ?c))) = Awaiting 0" using T by simp
  have 3: "attempts (snd (connectDB_enter (snd (connectDB_enter ?c)))) = 1" using T by simp
  have 4: "fst (connectDB_resume ?out 0 (snd (connectDB_enter ?c))) = Inr 5" using T by simp
  from 1 2 3 4 e show ?thesis by (intro conjI)
qed

section \<open>Properties of the Booking model\<close>

lemma many1_lang: "{a @ b | a b. a \<in> {[c] | c. P c} \<and> b \<in> {w. list_all P w}} = {w. w \<noteq> [] \<and> list_all P w}"
proof (intro equalityI subsetI)
  fix x assume "x \<in> {a @ b | a b. a \<in> {[c] | c. P c} \<and> b \<in> {w. list_all P w}}"
  then obtain c b where "x = [c] @ b" "P c" "list_all P b" by blast
  then show "x \<in> {w. w \<noteq> [] \<and> list_all P w}" by simp
next
  fix x assume "x \<in> {w. w \<noteq> [] \<and> list_all P w}"
  then obtain c b where "x = c # b" "P c" "list_all P b" by (cases x) auto
  then have "x = [c] @ b \<and> [c] \<in> {[c] | c. P c} \<and> b \<in> {w. list_all P w}" by simp
  then show "x \<in> {a @ b | a b. a \<in> {[c] | c. P c} \<and> b \<in> {w. list_all P w}}" by blast
qed

lemma rec_many1: "recognises (many1 P) {w. w \<noteq> [] \<and> list_all P w}"
  using rec_seq[OF rec_one[of P] rec_many[of P]] by (simp only: many1_def many1_lang)

lemma email_test_iff: "EMAIL_REGEX_test s = email_shape s"
proof -
  let ?W = "{w. w \<noteq> [] \<and> list_all not_space_at w}"
  have "recognises EMAIL_REGEX {a @ b | a b. a \<in> ?W \<and> b \<in> {a @ b | a b. a \<in> {[CHR ''@'']}
      \<and> b \<in> {a @ b | a b. a \<in> ?W \<and> b \<in> {a @ b | a b. a \<in> {[CHR ''.'']} \<and> b \<in> ?W}}}}"
    unfolding EMAIL_REGEX_def by (intro rec_seq rec_many1 rec_lit)
  then have "EMAIL_REGEX_test s = (s \<in> {a @ b | a b. a \<in> ?W \<and> b \<in> {a @ b | a b. a \<in> {[CHR ''@'']}
      \<and> b \<in> {a @ b | a b. a \<in> ?W \<and> b \<in> {a @ b | a b. a \<in> {[CHR ''.'']} \<and> b \<in> ?W}}}})"
    unfolding EMAIL_REGEX_test_def by (rule test_whole_rec)
  also have "\<dots> = email_shape s"
  proof
    assume "s \<in> {a @ b | a b. a \<in> ?W \<and> b \<in> {a @ b | a b. a \<in> {[CHR ''@'']}
      \<and> b \<in> {a @ b | a b. a \<in> ?W \<and> b \<in> {a @ b | a b. a \<in> {[CHR ''.'']} \<and> b \<in> ?W}}}}"
    then obtain l d t where "s = l @ [CHR ''@''] @ d @ [CHR ''.''] @ t" "l \<in> ?W" "d \<in> ?W" "t \<in> ?W"
      by blast
    then show "email_shape s" unfolding email_shape_def by auto
  next
    assume "email_shape s"
    then obtain l d t where f: "s = l @ ''@'' @ d @ ''.'' @ t" "l \<in> ?W" "d \<in> ?W" "t \<in> ?W"
      unfolding email_shape_def by auto
    have 1: "''.'' @ t \<in> {a @ b | a b. a \<in> {[CHR ''.'']} \<and> b \<in> ?W}" using f(4) by blast
    have 2: "d @ ''.'' @ t \<in> {a @ b | a b. a \<in> ?W \<and> b \<in> {a @ b | a b. a \<in> {[CHR ''.'']} \<and> b \<in> ?W}}"
      using f(3) 1 by blast
    have 3: "''@'' @ d @ ''.'' @ t \<in> {a @ b | a b. a \<in> {[CHR ''@'']}
      \<and> b \<in> {a @ b | a b. a \<in> ?W \<and> b \<in> {a @ b | a b. a \<in> {[CHR ''.'']} \<and> b \<in> ?W}}}"
      using 2 by blast
    show "s \<in> {a @ b | a b. a \<in> ?W \<and> b \<in> {a @ b | a b. a \<in> {[CHR ''@'']}
      \<and> b \<in> {a @ b | a b. a \<in> ?W \<and> b \<in> {a @ b | a b. a \<in> {[CHR ''.'']} \<and> b \<in> ?W}}}}"
      unfolding f(1) using f(2) 3 by blast
  qed
  finally show ?thesis .
qed

lemma email_shape_nonempty: "email_shape s \<Longrightarrow> s \<noteq> []"
  by (auto simp: email_shape_def)

lemma Event_exists_simps:
  "failure st = None \<Longrightarrow> i \<in> set (event_ids st) \<Longrightarrow> Event_exists st i = Found"
  "failure st = None \<Longrightarrow> i \<notin> set (event_ids st) \<Longrightarrow> Event_exists st i = Missing"
  "failure st = Some e \<Longrightarrow> Event_exists st i = Rejected e"
  by (simp_all add: Event_exists_def)

lemma save_booking_eq:
  "save_booking st b0 =
     (if email (applySetters_booking b0) = [] then (Inl (RequiredFieldMissing ''email''), [])
      else preSave_booking st (applySetters_booking b0))"
  by (simp add: save_booking_def validate_booking_def required_def Let_def)

lemma save_booking_v2_eq:
  "save_booking_v2 st isNew isModified b0 =
     (if email (applySetters_booking b0) = [] then (Inl (RequiredFieldMissing ''email''), [])
      else if email_shape (email (applySetters_booking b0))
      then preSave_booking_v2 st isNew isModified (applySetters_booking b0)
      else (Inl InvalidEmail, []))"
  by (simp add: save_booking_v2_def validate_booking_v2_def Let_def email_test_iff)

lemma eventId_applySetters: "eventId (applySetters_booking b) = eventId b"
  by (simp add: applySetters_booking_def)

lemma preSave_booking_v2_queries:
  "snd (preSave_booking_v2 st isNew isModified b)
     = (if isNew \<or> isModified ''eventId'' then [eventId b] else [])"
  by (simp add: preSave_booking_v2_def split: exists_result.splits)

lemma sample_emails:
  "toLowerCase (trim '' Ada@Example.org '') = ''ada@example.org''"
  "toLowerCase (trim ''ada@example'') = ''ada@example''"
  "toLowerCase (trim ''ada@example.org'') = ''ada@example.org''"
  "toLowerCase (trim ''  '') = []"
  "EMAIL_REGEX_test ''ada@example.org''" "\<not> EMAIL_REGEX_test ''ada@example''"
  by code_simp+




text \<open>
  C6: the hook of the second variant asks the store exactly for a new document or a
  modified \<open>eventId\<close>, once, and turns a rejected query into \<open>ReferenceCheckFailed\<close> and an
  absent event into \<open>DanglingReference\<close>. A save reaches that hook when the email has
  passed its validators. The first variant asks the store on every save whose email has
  the shape, and hands the error of a rejected query on as it is.
\<close>

theorem booking_store_queries:
  "snd (preSave_booking_v2 st isNew isModified b)
     = (if isNew \<or> isModified ''eventId'' then [eventId b] else [])
   \<and> snd (save_booking_v2 st isNew isModified b)
     = (if email_shape (email (applySetters_booking b)) \<and> (isNew \<or> isModified ''eventId'')
        then [eventId b] else [])
   \<and> snd (save_booking st b)
     = (if email_shape (email (applySetters_booking b)) then [eventId b] else [])
   \<and> (failure st = Some e \<and> (isNew \<or> isModified ''eventId'')
      \<longrightarrow> fst (preSave_booking_v2 st isNew isModified b) = Inl ReferenceCheckFailed)
   \<and> (failure st = Some e \<and> email_shape (email (applySetters_booking b))
        \<and> (isNew \<or> isModified ''eventId'')
      \<longrightarrow> fst (save_booking_v2 st isNew isModified b) = Inl ReferenceCheckFailed)
   \<and> (failure st = None \<and> eventId b \<notin> set (event_ids st) \<and> (isNew \<or> isModified ''eventId'')
      \<longrightarrow> fst (preSave_booking_v2 st isNew isModified b) = Inl DanglingReference)
   \<and> (failure st = Some e \<and> email_shape (email (applySetters_booking b))
      \<longrightarrow> fst (save_booking st b) = Inl (StoreError e))
   \<and> ReferenceCheckFailed \<noteq> DanglingReference \<and> StoreError e \<noteq> DanglingReference"
proof -
  let ?b = "applySetters_booking b"
  have n: "email_shape (email ?b) \<Longrightarrow> email ?b \<noteq> []" by (rule email_shape_nonempty)
  have 1: "snd (preSave_booking_v2 st isNew isModified b)
     = (if isNew \<or> isModified ''eventId'' then [eventId b] else [])"
    by (rule preSave_booking_v2_queries)
  have 2: "snd (save_booking_v2 st isNew isModified b)
     = (if email_shape (email ?b) \<and> (isNew \<or> isModified ''eventId'') then [eventId b] else [])"
    using n by (simp add: save_booking_v2_eq preSave_booking_v2_queries eventId_applySetters)
  have 3: "snd (save_booking st b) = (if email_shape (email ?b) then [eventId b] else [])"
    using n
    by (simp add: save_booking_eq preSave_booking_def email_test_iff eventId_applySetters
        split: exists_result.splits)
  have 4: "failure st = Some e \<and> (isNew \<or> isModified ''eventId'')
      \<longrightarrow> fst (preSave_booking_v2 st isNew isModified b) = Inl ReferenceCheckFailed"
    by (auto simp: preSave_booking_v2_def Event_exists_simps)
  have 5: "failure st = Some e \<and> email_shape (email ?b) \<and> (isNew \<or> isModified ''eventId'')
      \<longrightarrow> fst (save_booking_v2 st isNew isModified b) = Inl ReferenceCheckFailed"
    using n by (auto simp: save_booking_v2_eq preSave_booking_v2_def Event_exists_simps)
  have 6: "failure st = None \<and> eventId b \<notin> set (event_ids st) \<and> (isNew \<or> isModified ''eventId'')
      \<longrightarrow> fst (preSave_booking_v2 st isNew isModified b) = Inl DanglingReference"
    by (auto simp: preSave_booking_v2_def Event_exists_simps)
  have 7: "failure st = Some e \<and> email_shape (email ?b)
      \<longrightarrow> fst (save_booking st b) = Inl (StoreError e)"
    using n by (auto simp: save_booking_eq preSave_booking_def email_test_iff Event_exists_simps)
  have 8: "ReferenceCheckFailed \<noteq> DanglingReference \<and> StoreError e \<noteq> DanglingReference" by simp
  from 1 2 3 4 5 6 7 8 show ?thesis by (intro conjI) simp_all
qed

theorem booking_store_queries_witness:
  "fst (preSave_booking_v2 \<lparr>event_ids = [7], failure = Some ''unreachable''\<rparr> True (\<lambda>p. False)
        \<lparr>eventId = 7, email = ''ada@example.org''\<rparr>) = Inl ReferenceCheckFailed
   \<and> fst (save_booking_v2 \<lparr>event_ids = [7], failure = Some ''unreachable''\<rparr> True (\<lambda>p. False)
        \<lparr>eventId = 7, email = ''ada@example.org''\<rparr>) = Inl ReferenceCheckFailed
   \<and> fst (preSave_booking_v2 \<lparr>event_ids = [7], failure = None\<rparr> False (\<lambda>p. p = ''eventId'')
        \<lparr>eventId = 9, email = ''ada@example.org''\<rparr>) = Inl DanglingReference
   \<and> fst (save_booking \<lparr>event_ids = [7], failure = Some ''unreachable''\<rparr>
        \<lparr>eventId = 7, email = ''ada@example.org''\<rparr>) = Inl (StoreError ''unreachable'')"
proof -
  let ?b = "\<lparr>eventId = 7, email = ''ada@example.org''\<rparr>"
  let ?down = "\<lparr>event_ids = [7], failure = Some ''unreachable''\<rparr>"
  have s: "email_shape ''ada@example.org''" using sample_emails(5) by (simp add: email_test_iff)
  have a: "applySetters_booking ?b = ?b" by (simp add: applySetters_booking_def sample_emails)
  note A = booking_store_queries[where st="?down" and isNew=True and isModified="\<lambda>p. False"
      and b="?b" and e="''unreachable''"]
  note B = booking_store_queries[where st="\<lparr>event_ids = [7], failure = None\<rparr>" and isNew=False
      and isModified="\<lambda>p. p = ''eventId''" and b="\<lparr>eventId = 9, email = ''ada@example.org''\<rparr>"
      and e="''unreachable''"]
  have 1: "fst (preSave_booking_v2 ?down True (\<lambda>p. False) ?b) = Inl ReferenceCheckFailed"
    using A[THEN conjunct2, THEN conjunct2, THEN conjunct2, THEN conjunct1] by simp
  have 2: "fst (save_booking_v2 ?down True (\<lambda>p. False) ?b) = Inl ReferenceCheckFailed"
    using A[THEN conjunct2, THEN conjunct2, THEN conjunct2, THEN conjunct2, THEN conjunct1] s
    by (simp add: a)
  have 3: "fst (preSave_booking_v2 \<lparr>event_ids = [7], failure = None\<rparr> False (\<lambda>p. p = ''eventId'')
        \<lparr>eventId = 9, email = ''ada@example.org''\<rparr>) = Inl DanglingReference"
    using B[THEN conjunct2, THEN conjunct2, THEN conjunct2, THEN conjunct2, THEN conjunct2,
        THEN conjunct1] by simp
  have 4: "fst (save_booking ?down ?b) = Inl (StoreError ''unreachable'')"
    using A[THEN conjunct2, THEN conjunct2, THEN conjunct2, THEN conjunct2, THEN conjunct2,
        THEN conjunct2, THEN conjunct1] s
    by (simp add: a)
  from 1 2 3 4 show ?thesis by (intro conjI)
qed

text \<open>
  Saving a stored Booking again, nothing modified: the first variant asks the store, the
  second does not.
\<close>

theorem booking_query_counterexample:
  "save_booking \<lparr>event_ids = [7], failure = None\<rparr> \<lparr>eventId = 7, email = ''ada@example.org''\<rparr>
     = (Inr \<lparr>eventId = 7, email = ''ada@example.org''\<rparr>, [7])
   \<and> save_booking_v2 \<lparr>event_ids = [7], failure = None\<rparr> False (\<lambda>p. False)
        \<lparr>eventId = 7, email = ''ada@example.org''\<rparr>
     = (Inr \<lparr>eventId = 7, email = ''ada@example.org''\<rparr>, [])"
proof -
  have s: "email_shape ''ada@example.org''" using sample_emails(5) by (simp add: email_test_iff)
  have a: "applySetters_booking \<lparr>eventId = 7, email = ''ada@example.org''\<rparr>
      = \<lparr>eventId = 7, email = ''ada@example.org''\<rparr>"
    by (simp add: applySetters_booking_def sample_emails)
  show ?thesis
    using s
    by (simp add: save_booking_eq save_booking_v2_eq a preSave_booking_def preSave_booking_v2_def
        email_test_iff Event_exists_def)
qed

section \<open>Properties of the Event model\<close>

lemma dropWhile_trim: "dropWhile isWhiteSpace (trim s) = trim s"
proof (cases "trim s")
  case Nil
  then show ?thesis by simp
next
  case (Cons c r)
  then have "\<not> isWhiteSpace c" using trim_no_lead[of s c r] by simp
  then show ?thesis using Cons by simp
qed

lemma dropWhile_idem: "dropWhile P (dropWhile P xs) = dropWhile P xs"
  by (induction xs) simp_all

lemma trim_trim: "trim (trim s) = trim s"
proof -
  have "trim (trim s) = rev (dropWhile isWhiteSpace (rev (trim s)))"
    unfolding trim_def[of "trim s"] by (simp only: dropWhile_trim)
  also have "rev (trim s) = dropWhile isWhiteSpace (rev (dropWhile isWhiteSpace s))"
    by (simp add: trim_def)
  also have "rev (dropWhile isWhiteSpace (dropWhile isWhiteSpace (rev (dropWhile isWhiteSpace s))))
      = trim s"
    by (simp only: dropWhile_idem trim_def)
  finally show ?thesis .
qed

lemma and_then_simps [simp]: "and_then (Inl e) f = Inl e" "and_then (Inr x) f = f x"
  by (simp_all add: and_then_def)

lemma checks_blank:
  assumes "f \<in> set listed_fields" "trim (field_value f ev) = []"
  shows "\<exists>g. g \<in> set listed_fields \<and> trim (field_value g ev) = []
           \<and> preSave_checks ev = Inl (RequiredFieldMissing g)"
proof -
  let ?P = "\<lambda>g. g \<in> set listed_fields \<and> trim (field_value g ev) = []
     \<and> preSave_checks ev = Inl (RequiredFieldMissing g)"
  have "?P ''title'' \<or> ?P ''description'' \<or> ?P ''overview'' \<or> ?P ''image'' \<or> ?P ''venue''
      \<or> ?P ''location'' \<or> ?P ''mode'' \<or> ?P ''audience'' \<or> ?P ''organizer''"
    using assms
    by (auto simp: listed_fields_def field_value_def preSave_checks_def assertNonEmpty_def)
  then show ?thesis by blast
qed

lemma checks_ok_iff:
  "(preSave_checks ev = Inr ()) =
     ((\<forall>f\<in>set listed_fields. trim (field_value f ev) \<noteq> []) \<and> agenda ev \<noteq> [] \<and> tags ev \<noteq> [])"
  by (auto simp: listed_fields_def field_value_def preSave_checks_def assertNonEmpty_def)

lemma checks_lists:
  assumes "\<forall>f\<in>set listed_fields. trim (field_value f ev) \<noteq> []" "agenda ev = [] \<or> tags ev = []"
  shows "preSave_checks ev = Inl (EmptyListField (if agenda ev = [] then ''agenda'' else ''tags''))"
  using assms
  by (auto simp: listed_fields_def field_value_def preSave_checks_def assertNonEmpty_def)

lemma checks_applySetters: "preSave_checks (applySetters ev) = preSave_checks ev"
  by (simp add: preSave_checks_def applySetters_def assertNonEmpty_def trim_trim)

lemma validate_required:
  assumes "f \<in> set listed_fields" "trim (field_value f ev) = []"
  shows "RequiredFieldMissing f \<in> set (validate (applySetters ev))"
proof -
  have "f = ''title'' \<or> f = ''description'' \<or> f = ''overview'' \<or> f = ''image'' \<or> f = ''venue''
     \<or> f = ''location'' \<or> f = ''mode'' \<or> f = ''audience'' \<or> f = ''organizer''"
    using assms(1) by (simp add: listed_fields_def)
  then show ?thesis
    using assms(2)
    by (elim disjE) (simp_all add: field_value_def validate_def applySetters_def required_def)
qed

lemma validate_Nil_listed:
  assumes "validate (applySetters ev) = []" "f \<in> set listed_fields"
  shows "trim (field_value f ev) \<noteq> []"
proof
  assume "trim (field_value f ev) = []"
  then have "RequiredFieldMissing f \<in> set (validate (applySetters ev))"
    using assms(2) by (intro validate_required)
  then show False using assms(1) by simp
qed

lemma save_fails:
  assumes "e \<in> set (validate (applySetters ev))"
  shows "\<exists>errs. save engine isModified ev = Inl errs \<and> e \<in> set errs"
proof (cases "validate (applySetters ev)")
  case Nil
  with assms show ?thesis by simp
next
  case (Cons a as)
  then have "save engine isModified ev = Inl (a # as)" by (simp add: save_def)
  with assms Cons show ?thesis by simp
qed

lemma save_lists:
  assumes "agenda ev = [] \<or> tags ev = []"
  shows "save engine isModified ev
     = Inl (if validate (applySetters ev) = []
            then [EmptyListField (if agenda ev = [] then ''agenda'' else ''tags'')]
            else validate (applySetters ev))"
proof (cases "validate (applySetters ev)")
  case Nil
  then have "\<forall>f\<in>set listed_fields. trim (field_value f ev) \<noteq> []"
    using validate_Nil_listed by blast
  then have "preSave_checks ev
      = Inl (EmptyListField (if agenda ev = [] then ''agenda'' else ''tags''))"
    using assms by (rule checks_lists)
  then have "preSave engine isModified (applySetters ev)
      = Inl (EmptyListField (if agenda ev = [] then ''agenda'' else ''tags''))"
    by (simp add: preSave_def checks_applySetters)
  then show ?thesis using Nil by (simp add: save_def)
next
  case (Cons a as)
  then show ?thesis by (simp add: save_def)
qed

lemma validate_v2_required:
  assumes "f \<in> set trimmed_fields_v2" "trim (field_value f ev) = []"
  shows "RequiredFieldMissing f \<in> set (validate_v2 (applySetters_v2 ev))"
proof -
  have "f = ''title'' \<or> f = ''description'' \<or> f = ''overview'' \<or> f = ''image'' \<or> f = ''venue''
     \<or> f = ''location'' \<or> f = ''audience'' \<or> f = ''organizer''"
    using assms(1) by (simp add: trimmed_fields_v2_def)
  then show ?thesis
    using assms(2)
    by (elim disjE) (simp_all add: field_value_def validate_v2_def applySetters_v2_def required_def)
qed

lemma validate_v2_mode:
  assumes "mode ev \<noteq> []" "toLowerCase (mode ev) \<notin> set mode_values"
  shows "InvalidEnumValue \<in> set (validate_v2 (applySetters_v2 ev))"
  using assms
  by (simp add: validate_v2_def applySetters_v2_def validate_mode_def toLowerCase_def)

lemma validate_v2_mode_empty:
  assumes "mode ev = []"
  shows "RequiredFieldMissing ''mode'' \<in> set (validate_v2 (applySetters_v2 ev))"
  using assms
  by (simp add: validate_v2_def applySetters_v2_def validate_mode_def toLowerCase_def)

lemma validate_v2_lists:
  "agenda ev = [] \<Longrightarrow> EmptyListField ''agenda'' \<in> set (validate_v2 (applySetters_v2 ev))"
  "tags ev = [] \<Longrightarrow> EmptyListField ''tags'' \<in> set (validate_v2 (applySetters_v2 ev))"
  by (simp_all add: validate_v2_def applySetters_v2_def validate_list_def)

lemma save_v2_fails:
  assumes "e \<in> set (validate_v2 (applySetters_v2 ev))"
  shows "\<exists>errs. save_v2 engine isModified ev = Inl errs \<and> e \<in> set errs"
proof (cases "validate_v2 (applySetters_v2 ev)")
  case Nil
  with assms show ?thesis by simp
next
  case (Cons a as)
  then have "save_v2 engine isModified ev = Inl (a # as)" by (simp add: save_v2_def)
  with assms Cons show ?thesis by simp
qed

lemma sample_trims:
  "trim ''Tech Meetup 2025'' = ''Tech Meetup 2025''" "trim ''An evening of talks'' = ''An evening of talks''"
  "trim ''Talks and networking'' = ''Talks and networking''"
  "trim ''https://example.org/a.png'' = ''https://example.org/a.png''"
  "trim ''Main Hall'' = ''Main Hall''" "trim ''Pune'' = ''Pune''"
  "trim ''Developers'' = ''Developers''" "trim ''Pune JS'' = ''Pune JS''"
  "trim ''online'' = ''online''" "trim ''virtual'' = ''virtual''" "trim ''hybrid'' = ''hybrid''"
  "trim ''  '' = []"
  by code_simp+

lemma sample_lowers:
  "toLowerCase ''virtual'' = ''virtual''" "toLowerCase ''hybrid'' = ''hybrid''"
  "toLowerCase ''online'' = ''online''" "toLowerCase ''Virtual'' = ''virtual''"
  "toLowerCase [] = []"
  by code_simp+

lemma sample_slugs:
  "generateSlug ''Tech Meetup 2025'' = ''tech-meetup-2025''"
  "generateSlug_v2 ''Tech Meetup 2025'' = ''tech-meetup-2025''"
  by code_simp+

lemma sample_times:
  "normalizeTime ''6:30 PM'' = Inr ''18:30''" "normalizeTime_v2 ''6:30 PM'' = Inr ''18:30''"
  "normalizeTime_v2 ''25:00'' = Inl InvalidTime"
  by code_simp+

lemma sample_date: "normalizeDate engine ''2025-06-01'' = Inr ''2025-06-01''"
  by code_simp

lemma short_date: "length s \<noteq> 10 \<Longrightarrow> normalizeDate (\<lambda>s. None) s = Inl InvalidDate"
  by (simp add: normalizeDate_def new_Date_def iso_calendar_date_def Let_def)

lemma sample_preSave:
  "m \<noteq> [] \<Longrightarrow> trim m \<noteq> [] \<Longrightarrow>
   preSave engine (\<lambda>p. True) (sample_event m)
     = Inr ((sample_event m)\<lparr>slug := ''tech-meetup-2025'', time := ''18:30''\<rparr>)"
  by (simp add: preSave_def preSave_checks_def assertNonEmpty_def sample_event_def
      sample_trims sample_slugs sample_times sample_date)

lemma sample_save:
  "m = ''virtual'' \<or> m = ''hybrid'' \<Longrightarrow>
   save engine (\<lambda>p. True) ((sample_event m)\<lparr>slug := ''old-slug''\<rparr>)
     = Inr ((sample_event m)\<lparr>slug := ''tech-meetup-2025'', time := ''18:30''\<rparr>)"
  by (elim disjE)
    (simp_all add: save_def validate_def applySetters_def required_def preSave_def
      preSave_checks_def assertNonEmpty_def sample_event_def
      sample_trims sample_slugs sample_times sample_date)

lemma sample_save_v2_ok:
  "save_v2 engine (\<lambda>p. True) (sample_event ''hybrid'')
       = Inr ((sample_event ''hybrid'')\<lparr>slug := ''tech-meetup-2025'', time := ''18:30''\<rparr>)"
  by (simp add: save_v2_def validate_v2_def applySetters_v2_def required_def validate_mode_def
      validate_list_def mode_values_def preSave_v2_def sample_event_def
      sample_trims sample_lowers sample_slugs sample_times sample_date)

lemma sample_save_v2_virtual:
  "save_v2 engine (\<lambda>p. True) (sample_event ''virtual'') = Inl [InvalidEnumValue]"
  by (simp add: save_v2_def validate_v2_def applySetters_v2_def required_def validate_mode_def
      validate_list_def mode_values_def sample_event_def sample_trims sample_lowers)

text \<open>
  C3: what rejects an Event. In both variants a string field of the list that is empty
  after trimming fails as \<open>RequiredFieldMissing\<close> of that field, and an empty \<open>agenda\<close> or
  \<open>tags\<close> as \<open>EmptyListField\<close>; in the first variant the lists are looked at by the hook, so
  only when the validators have found nothing. The list of the first variant has the
  mode in it; the second variant does not trim the mode, and decides it by its
  enumeration: an empty mode is a missing field, any other mode that is not one of the
  three values in lower case is an \<open>InvalidEnumValue\<close>. So \<open>virtual\<close> fails there and
  \<open>hybrid\<close> is saved.
\<close>

theorem event_validation:
  "(f \<in> set listed_fields \<and> trim (field_value f ev) = []
      \<longrightarrow> (\<exists>errs. save engine isModified ev = Inl errs \<and> RequiredFieldMissing f \<in> set errs)
        \<and> (\<exists>g. g \<in> set listed_fields \<and> trim (field_value g ev) = []
             \<and> preSave engine isModified ev = Inl (RequiredFieldMissing g)))
   \<and> (agenda ev = [] \<or> tags ev = []
      \<longrightarrow> save engine isModified ev
            = Inl (if validate (applySetters ev) = []
                   then [EmptyListField (if agenda ev = [] then ''agenda'' else ''tags'')]
                   else validate (applySetters ev)))
   \<and> ((\<forall>f\<in>set listed_fields. trim (field_value f ev) \<noteq> []) \<and> (agenda ev = [] \<or> tags ev = [])
      \<longrightarrow> preSave engine isModified ev
            = Inl (EmptyListField (if agenda ev = [] then ''agenda'' else ''tags'')))
   \<and> (f \<in> set trimmed_fields_v2 \<and> trim (field_value f ev) = []
      \<longrightarrow> (\<exists>errs. save_v2 engine isModified ev = Inl errs \<and> RequiredFieldMissing f \<in> set errs))
   \<and> (mode ev = []
      \<longrightarrow> (\<exists>errs. save_v2 engine isModified ev = Inl errs
             \<and> RequiredFieldMissing ''mode'' \<in> set errs))
   \<and> (mode ev \<noteq> [] \<and> toLowerCase (mode ev) \<notin> set mode_values
      \<longrightarrow> (\<exists>errs. save_v2 engine isModified ev = Inl errs \<and> InvalidEnumValue \<in> set errs))
   \<and> (agenda ev = []
      \<longrightarrow> (\<exists>errs. save_v2 engine isModified ev = Inl errs \<and> EmptyListField ''agenda'' \<in> set errs))
   \<and> (tags ev = []
      \<longrightarrow> (\<exists>errs. save_v2 engine isModified ev = Inl errs \<and> EmptyListField ''tags'' \<in> set errs))
   \<and> save_v2 engine (\<lambda>p. True) (sample_event ''virtual'') = Inl [InvalidEnumValue]
   \<and> save_v2 engine (\<lambda>p. True) (sample_event ''hybrid'')
       = Inr ((sample_event ''hybrid'')\<lparr>slug := ''tech-meetup-2025'', time := ''18:30''\<rparr>)
   \<and> save engine (\<lambda>p. True) ((sample_event ''hybrid'')\<lparr>slug := ''old-slug''\<rparr>)
       = Inr ((sample_event ''hybrid'')\<lparr>slug := ''tech-meetup-2025'', time := ''18:30''\<rparr>)"
proof -
  have 1: "f \<in> set listed_fields \<and> trim (field_value f ev) = []
      \<longrightarrow> (\<exists>errs. save engine isModified ev = Inl errs \<and> RequiredFieldMissing f \<in> set errs)
        \<and> (\<exists>g. g \<in> set listed_fields \<and> trim (field_value g ev) = []
             \<and> preSave engine isModified ev = Inl (RequiredFieldMissing g))"
  proof
    assume a: "f \<in> set listed_fields \<and> trim (field_value f ev) = []"
    then obtain g where g: "g \<in> set listed_fields" "trim (field_value g ev) = []"
      "preSave_checks ev = Inl (RequiredFieldMissing g)"
      using checks_blank by blast
    have h: "\<exists>g. g \<in> set listed_fields \<and> trim (field_value g ev) = []
             \<and> preSave engine isModified ev = Inl (RequiredFieldMissing g)"
      using g by (auto simp: preSave_def)
    have "RequiredFieldMissing f \<in> set (validate (applySetters ev))"
      using a by (intro validate_required) simp_all
    then have "\<exists>errs. save engine isModified ev = Inl errs \<and> RequiredFieldMissing f \<in> set errs"
      by (rule save_fails)
    with h show "(\<exists>errs. save engine isModified ev = Inl errs \<and> RequiredFieldMissing f \<in> set errs)
        \<and> (\<exists>g. g \<in> set listed_fields \<and> trim (field_value g ev) = []
             \<and> preSave engine isModified ev = Inl (RequiredFieldMissing g))"
      by (rule conjI[rotated])
  qed
  have 2: "agenda ev = [] \<or> tags ev = []
      \<longrightarrow> save engine isModified ev
            = Inl (if validate (applySetters ev) = []
                   then [EmptyListField (if agenda ev = [] then ''agenda'' else ''tags'')]
                   else validate (applySetters ev))"
    using save_lists by blast
  have 3: "(\<forall>f\<in>set listed_fields. trim (field_value f ev) \<noteq> []) \<and> (agenda ev = [] \<or> tags ev = [])
      \<longrightarrow> preSave engine isModified ev
            = Inl (EmptyListField (if agenda ev = [] then ''agenda'' else ''tags''))"
    using checks_lists[of ev] by (simp add: preSave_def)
  have 4: "f \<in> set trimmed_fields_v2 \<and> trim (field_value f ev) = []
      \<longrightarrow> (\<exists>errs. save_v2 engine isModified ev = Inl errs \<and> RequiredFieldMissing f \<in> set errs)"
    using validate_v2_required save_v2_fails by blast
  have 5: "mode ev = []
      \<longrightarrow> (\<exists>errs. save_v2 engine isModified ev = Inl errs
             \<and> RequiredFieldMissing ''mode'' \<in> set errs)"
    using validate_v2_mode_empty save_v2_fails by blast
  have 6: "mode ev \<noteq> [] \<and> toLowerCase (mode ev) \<notin> set mode_values
      \<longrightarrow> (\<exists>errs. save_v2 engine isModified ev = Inl errs \<and> InvalidEnumValue \<in> set errs)"
    using validate_v2_mode save_v2_fails by blast
  have 7: "agenda ev = []
      \<longrightarrow> (\<exists>errs. save_v2 engine isModified ev = Inl errs \<and> EmptyListField ''agenda'' \<in> set errs)"
    using validate_v2_lists(1) save_v2_fails by blast
  have 8: "tags ev = []
      \<longrightarrow> (\<exists>errs. save_v2 engine isModified ev = Inl errs \<and> EmptyListField ''tags'' \<in> set errs)"
    using validate_v2_lists(2) save_v2_fails by blast
  note 9 = sample_save_v2_virtual[of engine]
  note 10 = sample_save_v2_ok[of engine]
  have 11: "save engine (\<lambda>p. True) ((sample_event ''hybrid'')\<lparr>slug := ''old-slug''\<rparr>)
       = Inr ((sample_event ''hybrid'')\<lparr>slug := ''tech-meetup-2025'', time := ''18:30''\<rparr>)"
    by (rule sample_save) simp
  from 1 2 3 4 5 6 7 8 9 10 11 show ?thesis by (intro conjI)
qed

theorem event_validation_witness:
  "(\<exists>errs. save (\<lambda>s. None) (\<lambda>p. True) ((sample_event ''online'')\<lparr>venue := ''  ''\<rparr>) = Inl errs
        \<and> RequiredFieldMissing ''venue'' \<in> set errs)
   \<and> (\<exists>g. g \<in> set listed_fields \<and> trim (field_value g ((sample_event ''online'')\<lparr>venue := ''  ''\<rparr>)) = []
       \<and> preSave (\<lambda>s. None) (\<lambda>p. True) ((sample_event ''online'')\<lparr>venue := ''  ''\<rparr>)
           = Inl (RequiredFieldMissing g))
   \<and> save (\<lambda>s. None) (\<lambda>p. True) ((sample_event ''online'')\<lparr>slug := ''old-slug'', tags := []\<rparr>)
       = Inl [EmptyListField ''tags'']
   \<and> preSave (\<lambda>s. None) (\<lambda>p. True) ((sample_event ''online'')\<lparr>tags := []\<rparr>)
       = Inl (EmptyListField ''tags'')
   \<and> (\<exists>errs. save_v2 (\<lambda>s. None) (\<lambda>p. True) ((sample_event ''online'')\<lparr>venue := ''  ''\<rparr>) = Inl errs
        \<and> RequiredFieldMissing ''venue'' \<in> set errs)
   \<and> (\<exists>errs. save_v2 (\<lambda>s. None) (\<lambda>p. True) (sample_event []) = Inl errs
        \<and> RequiredFieldMissing ''mode'' \<in> set errs)
   \<and> (\<exists>errs. save_v2 (\<lambda>s. None) (\<lambda>p. True) (sample_event ''Virtual'') = Inl errs
        \<and> InvalidEnumValue \<in> set errs)
   \<and> (\<exists>errs. save_v2 (\<lambda>s. None) (\<lambda>p. True) ((sample_event ''online'')\<lparr>agenda := []\<rparr>) = Inl errs
        \<and> EmptyListField ''agenda'' \<in> set errs)
   \<and> (\<exists>errs. save_v2 (\<lambda>s. None) (\<lambda>p. True) ((sample_event ''online'')\<lparr>tags := []\<rparr>) = Inl errs
        \<and> EmptyListField ''tags'' \<in> set errs)"
proof -
  let ?e = "\<lambda>s::string. None::utc_date option" and ?m = "\<lambda>p::string. True"
  let ?v = "(sample_event ''online'')\<lparr>venue := ''  ''\<rparr>"
  let ?t = "(sample_event ''online'')\<lparr>tags := []\<rparr>"
  let ?u = "(sample_event ''online'')\<lparr>slug := ''old-slug'', tags := []\<rparr>"
  let ?a = "(sample_event ''online'')\<lparr>agenda := []\<rparr>"
  let ?V = "sample_event ''Virtual''"
  let ?n = "sample_event []"
  have v1: "''venue'' \<in> set listed_fields \<and> trim (field_value ''venue'' ?v) = []"
    by (simp add: listed_fields_def field_value_def sample_event_def sample_trims)
  have v2: "''venue'' \<in> set trimmed_fields_v2 \<and> trim (field_value ''venue'' ?v) = []"
    by (simp add: trimmed_fields_v2_def field_value_def sample_event_def sample_trims)
  have t: "(\<forall>f\<in>set listed_fields. trim (field_value f ?t) \<noteq> []) \<and> (agenda ?t = [] \<or> tags ?t = [])"
    by (simp add: listed_fields_def field_value_def sample_event_def sample_trims)
  have t2: "agenda ?t \<noteq> []" "tags ?t = []" by (simp_all add: sample_event_def)
  have u: "agenda ?u = [] \<or> tags ?u = []" "agenda ?u \<noteq> []"
    by (simp_all add: sample_event_def)
  have u2: "validate (applySetters ?u) = []"
    by (simp add: validate_def applySetters_def required_def sample_event_def sample_trims)
  have m: "mode ?V \<noteq> [] \<and> toLowerCase (mode ?V) \<notin> set mode_values"
    by (simp add: sample_event_def sample_lowers mode_values_def)
  have n: "mode ?n = []" by (simp add: sample_event_def)
  have a: "agenda ?a = []" by (simp add: sample_event_def)
  note A = event_validation[where f="''venue''" and ev="?v" and engine="?e" and isModified="?m"]
  note B = event_validation[where f="''venue''" and ev="?t" and engine="?e" and isModified="?m"]
  note C = event_validation[where f="''venue''" and ev="?V" and engine="?e" and isModified="?m"]
  note D = event_validation[where f="''venue''" and ev="?a" and engine="?e" and isModified="?m"]
  note E = event_validation[where f="''venue''" and ev="?u" and engine="?e" and isModified="?m"]
  note F = event_validation[where f="''venue''" and ev="?n" and engine="?e" and isModified="?m"]
  have 1: "(\<exists>errs. save ?e ?m ?v = Inl errs \<and> RequiredFieldMissing ''venue'' \<in> set errs)
      \<and> (\<exists>g. g \<in> set listed_fields \<and> trim (field_value g ?v) = []
       \<and> preSave ?e ?m ?v = Inl (RequiredFieldMissing g))"
    using A[THEN conjunct1] v1 by (rule mp)
  have 2: "save ?e ?m ?u = Inl [EmptyListField ''tags'']"
    using E[THEN conjunct2, THEN conjunct1, THEN mp, OF u(1)] u(2) u2 by simp
  have 3: "preSave ?e ?m ?t = Inl (EmptyListField ''tags'')"
    using B[THEN conjunct2, THEN conjunct2, THEN conjunct1, THEN mp, OF t] t2 by simp
  have 4: "\<exists>errs. save_v2 ?e ?m ?v = Inl errs \<and> RequiredFieldMissing ''venue'' \<in> set errs"
    using A[THEN conjunct2, THEN conjunct2, THEN conjunct2, THEN conjunct1] v2 by (rule mp)
  have 5: "\<exists>errs. save_v2 ?e ?m ?n = Inl errs \<and> RequiredFieldMissing ''mode'' \<in> set errs"
    using F[THEN conjunct2, THEN conjunct2, THEN conjunct2, THEN conjunct2, THEN conjunct1] n
    by (rule mp)
  have 6: "\<exists>errs. save_v2 ?e ?m ?V = Inl errs \<and> InvalidEnumValue \<in> set errs"
    using C[THEN conjunct2, THEN conjunct2, THEN conjunct2, THEN conjunct2, THEN conjunct2,
        THEN conjunct1] m
    by (rule mp)
  have 7: "\<exists>errs. save_v2 ?e ?m ?a = Inl errs \<and> EmptyListField ''agenda'' \<in> set errs"
    using D[THEN conjunct2, THEN conjunct2, THEN conjunct2, THEN conjunct2, THEN conjunct2,
        THEN conjunct2, THEN conjunct1] a
    by (rule mp)
  have 8: "\<exists>errs. save_v2 ?e ?m ?t = Inl errs \<and> EmptyListField ''tags'' \<in> set errs"
    using B[THEN conjunct2, THEN conjunct2, THEN conjunct2, THEN conjunct2, THEN conjunct2,
        THEN conjunct2, THEN conjunct2, THEN conjunct1] t2(2)
    by (rule mp)
  from 1 2 3 4 5 6 7 8 show ?thesis by (intro conjI) (erule conjunct1, erule conjunct2)
qed

text \<open>
  The first variant has no enumeration of the mode: with a slug given, the mode
  \<open>virtual\<close> passes the validators and the hook, and the hook alone accepts it too.
\<close>

theorem event_mode_counterexample:
  "''virtual'' \<notin> set mode_values
   \<and> save (\<lambda>s. None) (\<lambda>p. True) ((sample_event ''virtual'')\<lparr>slug := ''old-slug''\<rparr>)
       = Inr ((sample_event ''virtual'')\<lparr>slug := ''tech-meetup-2025'', time := ''18:30''\<rparr>)
   \<and> preSave (\<lambda>s. None) (\<lambda>p. True) (sample_event ''virtual'')
       = Inr ((sample_event ''virtual'')\<lparr>slug := ''tech-meetup-2025'', time := ''18:30''\<rparr>)"
  using sample_preSave[of "''virtual''" "\<lambda>s. None"] sample_save[of "''virtual''" "\<lambda>s. None"]
  by (simp add: mode_values_def sample_trims)

lemma preSave_hook_result:
  "preSave_checks ev = Inr () \<Longrightarrow>
   preSave engine isModified ev
     = hook_result (isModified ''title'' \<or> slug ev = []) generateSlug (normalizeDate engine)
         normalizeTime isModified ev"
  by (auto simp: preSave_def hook_result_def Let_def split: sum.splits)

lemma preSave_v2_hook_result:
  "preSave_v2 engine isModified ev
     = hook_result (isModified ''title'') generateSlug_v2 (normalizeDate engine) normalizeTime_v2
         isModified ev"
  by (auto simp: preSave_v2_def hook_result_def Let_def split: sum.splits)

lemma preSave_Inr_checks: "preSave engine isModified ev = Inr ev' \<Longrightarrow> preSave_checks ev = Inr ()"
  by (cases "preSave_checks ev") (auto simp: preSave_def)

lemma hook_result_Inr:
  assumes "hook_result b gen nd nt isModified ev = Inr ev'"
  shows "slug ev' = (if b then gen (title ev) else slug ev)
    \<and> (if isModified ''date'' then nd (date ev) = Inr (date ev') else date ev' = date ev)
    \<and> (if isModified ''time'' then nt (time ev) = Inr (time ev') else time ev' = time ev)
    \<and> ev'\<lparr>slug := slug ev, date := date ev, time := time ev\<rparr> = ev"
  using assms by (auto simp: hook_result_def split: sum.splits if_splits)

lemma hook_result_date_error:
  "isModified ''date'' \<Longrightarrow> nd (date ev) = Inl e \<Longrightarrow> hook_result b gen nd nt isModified ev = Inl e"
  by (simp add: hook_result_def)

lemma hook_result_time_error:
  "isModified ''time'' \<Longrightarrow> nt (time ev) = Inl e \<Longrightarrow>
   (isModified ''date'' \<longrightarrow> (\<exists>d. nd (date ev) = Inr d)) \<Longrightarrow>
   hook_result b gen nd nt isModified ev = Inl e"
  by (auto simp: hook_result_def)

lemma hook_result_total:
  "(isModified ''date'' \<longrightarrow> (\<exists>d. nd (date ev) = Inr d)) \<Longrightarrow>
   (isModified ''time'' \<longrightarrow> (\<exists>t. nt (time ev) = Inr t)) \<Longrightarrow>
   \<exists>ev'. hook_result b gen nd nt isModified ev = Inr ev'"
  by (auto simp: hook_result_def)

lemma sample_hook_time:
  "preSave engine (\<lambda>p. p = ''time'') ((sample_event ''online'')\<lparr>slug := ''old-slug''\<rparr>)
     = Inr ((sample_event ''online'')\<lparr>slug := ''old-slug'', time := ''18:30''\<rparr>)"
  by (simp add: preSave_def preSave_checks_def assertNonEmpty_def sample_event_def
      sample_trims sample_times)

lemma sample_hook_v2_nothing:
  "preSave_v2 engine (\<lambda>p. False) (sample_event ''online'') = Inr (sample_event ''online'')"
  by (simp add: preSave_v2_def)

text \<open>
  C4: what the hook does to a document it accepts, and how it fails. The slug is
  computed anew from the title when the title is modified, and in the first variant
  also when there is no slug; the date is normalized exactly when it is modified, and
  the time likewise; a field whose condition does not hold keeps its value, and no
  other field is touched. An error of a normalizer that is run is the error of the hook;
  with no such error (and, in the first variant, the checks passed) the hook accepts.
\<close>

theorem event_hook_frame:
  "(preSave engine isModified ev = Inr ev' \<longrightarrow>
      slug ev' = (if isModified ''title'' \<or> slug ev = [] then generateSlug (title ev) else slug ev)
      \<and> (if isModified ''date'' then normalizeDate engine (date ev) = Inr (date ev')
          else date ev' = date ev)
      \<and> (if isModified ''time'' then normalizeTime (time ev) = Inr (time ev')
          else time ev' = time ev)
      \<and> ev'\<lparr>slug := slug ev, date := date ev, time := time ev\<rparr> = ev)
   \<and> (preSave_v2 engine isModified ev = Inr ev' \<longrightarrow>
      slug ev' = (if isModified ''title'' then generateSlug_v2 (title ev) else slug ev)
      \<and> (if isModified ''date'' then normalizeDate engine (date ev) = Inr (date ev')
          else date ev' = date ev)
      \<and> (if isModified ''time'' then normalizeTime_v2 (time ev) = Inr (time ev')
          else time ev' = time ev)
      \<and> ev'\<lparr>slug := slug ev, date := date ev, time := time ev\<rparr> = ev)
   \<and> (isModified ''date'' \<and> normalizeDate engine (date ev) = Inl e
      \<longrightarrow> preSave_v2 engine isModified ev = Inl e
        \<and> (preSave_checks ev = Inr () \<longrightarrow> preSave engine isModified ev = Inl e))
   \<and> (isModified ''time'' \<and> (isModified ''date'' \<longrightarrow> (\<exists>d. normalizeDate engine (date ev) = Inr d))
        \<and> normalizeTime (time ev) = Inl e
      \<longrightarrow> preSave_v2 engine isModified ev = Inl e
        \<and> (preSave_checks ev = Inr () \<longrightarrow> preSave engine isModified ev = Inl e))
   \<and> ((isModified ''date'' \<longrightarrow> (\<exists>d. normalizeDate engine (date ev) = Inr d))
       \<and> (isModified ''time'' \<longrightarrow> (\<exists>t. normalizeTime (time ev) = Inr t))
      \<longrightarrow> (\<exists>r. preSave_v2 engine isModified ev = Inr r)
        \<and> (preSave_checks ev = Inr () \<longrightarrow> (\<exists>r. preSave engine isModified ev = Inr r)))"
proof -
  have 1: "preSave engine isModified ev = Inr ev' \<longrightarrow>
      slug ev' = (if isModified ''title'' \<or> slug ev = [] then generateSlug (title ev) else slug ev)
      \<and> (if isModified ''date'' then normalizeDate engine (date ev) = Inr (date ev')
          else date ev' = date ev)
      \<and> (if isModified ''time'' then normalizeTime (time ev) = Inr (time ev')
          else time ev' = time ev)
      \<and> ev'\<lparr>slug := slug ev, date := date ev, time := time ev\<rparr> = ev"
  proof
    assume a: "preSave engine isModified ev = Inr ev'"
    then have "preSave_checks ev = Inr ()" by (rule preSave_Inr_checks)
    then have "hook_result (isModified ''title'' \<or> slug ev = []) generateSlug (normalizeDate engine)
         normalizeTime isModified ev = Inr ev'"
      using a by (simp add: preSave_hook_result)
    then show "slug ev' = (if isModified ''title'' \<or> slug ev = [] then generateSlug (title ev) else slug ev)
      \<and> (if isModified ''date'' then normalizeDate engine (date ev) = Inr (date ev')
          else date ev' = date ev)
      \<and> (if isModified ''time'' then normalizeTime (time ev) = Inr (time ev')
          else time ev' = time ev)
      \<and> ev'\<lparr>slug := slug ev, date := date ev, time := time ev\<rparr> = ev"
      by (rule hook_result_Inr)
  qed
  have 2: "preSave_v2 engine isModified ev = Inr ev' \<longrightarrow>
      slug ev' = (if isModified ''title'' then generateSlug_v2 (title ev) else slug ev)
      \<and> (if isModified ''date'' then normalizeDate engine (date ev) = Inr (date ev')
          else date ev' = date ev)
      \<and> (if isModified ''time'' then normalizeTime_v2 (time ev) = Inr (time ev')
          else time ev' = time ev)
      \<and> ev'\<lparr>slug := slug ev, date := date ev, time := time ev\<rparr> = ev"
    unfolding preSave_v2_hook_result using hook_result_Inr by blast
  have 3: "isModified ''date'' \<and> normalizeDate engine (date ev) = Inl e
      \<longrightarrow> preSave_v2 engine isModified ev = Inl e
        \<and> (preSave_checks ev = Inr () \<longrightarrow> preSave engine isModified ev = Inl e)"
    by (simp add: preSave_v2_hook_result preSave_hook_result hook_result_date_error)
  have 4: "isModified ''time'' \<and> (isModified ''date'' \<longrightarrow> (\<exists>d. normalizeDate engine (date ev) = Inr d))
        \<and> normalizeTime (time ev) = Inl e
      \<longrightarrow> preSave_v2 engine isModified ev = Inl e
        \<and> (preSave_checks ev = Inr () \<longrightarrow> preSave engine isModified ev = Inl e)"
    using hook_result_time_error[of isModified normalizeTime_v2 ev e "normalizeDate engine"]
      hook_result_time_error[of isModified normalizeTime ev e "normalizeDate engine"]
    by (simp add: preSave_v2_hook_result preSave_hook_result normalizeTime_v1_v2)
  have 5: "(isModified ''date'' \<longrightarrow> (\<exists>d. normalizeDate engine (date ev) = Inr d))
       \<and> (isModified ''time'' \<longrightarrow> (\<exists>t. normalizeTime (time ev) = Inr t))
      \<longrightarrow> (\<exists>r. preSave_v2 engine isModified ev = Inr r)
        \<and> (preSave_checks ev = Inr () \<longrightarrow> (\<exists>r. preSave engine isModified ev = Inr r))"
    using hook_result_total[of isModified "normalizeDate engine" ev normalizeTime_v2]
      hook_result_total[of isModified "normalizeDate engine" ev normalizeTime]
    by (simp add: preSave_v2_hook_result preSave_hook_result normalizeTime_v1_v2)
  from 1 2 3 4 5 show ?thesis by (intro conjI)
qed

theorem event_hook_frame_witness:
  "preSave (\<lambda>s. None) (\<lambda>p. p = ''time'') ((sample_event ''online'')\<lparr>slug := ''old-slug''\<rparr>)
     = Inr ((sample_event ''online'')\<lparr>slug := ''old-slug'', time := ''18:30''\<rparr>)
   \<and> slug ((sample_event ''online'')\<lparr>slug := ''old-slug'', time := ''18:30''\<rparr>) = ''old-slug''
   \<and> date ((sample_event ''online'')\<lparr>slug := ''old-slug'', time := ''18:30''\<rparr>)
        = date ((sample_event ''online'')\<lparr>slug := ''old-slug''\<rparr>)
   \<and> normalizeTime (time ((sample_event ''online'')\<lparr>slug := ''old-slug''\<rparr>))
        = Inr (time ((sample_event ''online'')\<lparr>slug := ''old-slug'', time := ''18:30''\<rparr>))
   \<and> slug ((sample_event ''online'')\<lparr>slug := ''tech-meetup-2025'', time := ''18:30''\<rparr>)
        = generateSlug_v2 (title (sample_event ''online''))
   \<and> preSave_v2 (\<lambda>s. None) (\<lambda>p. True) ((sample_event ''online'')\<lparr>date := ''someday''\<rparr>)
        = Inl InvalidDate
   \<and> preSave_v2 (\<lambda>s. None) (\<lambda>p. p = ''time'') ((sample_event ''online'')\<lparr>time := ''25:00''\<rparr>)
        = Inl InvalidTime
   \<and> (\<exists>r. preSave_v2 (\<lambda>s. None) (\<lambda>p. False) (sample_event ''online'') = Inr r)"
proof -
  let ?e = "\<lambda>s::string. None::utc_date option"
  let ?ev = "(sample_event ''online'')\<lparr>slug := ''old-slug''\<rparr>"
  let ?r = "(sample_event ''online'')\<lparr>slug := ''old-slug'', time := ''18:30''\<rparr>"
  let ?m = "\<lambda>p::string. p = ''time''"
  let ?all = "\<lambda>p::string. True"
  let ?none = "\<lambda>p::string. False"
  let ?d = "(sample_event ''online'')\<lparr>date := ''someday''\<rparr>"
  let ?t = "(sample_event ''online'')\<lparr>time := ''25:00''\<rparr>"
  let ?s = "(sample_event ''online'')\<lparr>slug := ''tech-meetup-2025'', time := ''18:30''\<rparr>"
  have a: "preSave ?e ?m ?ev = Inr ?r" by (rule sample_hook_time)
  have m: "\<not> ?m ''title''" "\<not> ?m ''date''" "?m ''time''" "slug ?ev \<noteq> []"
    by (simp_all add: sample_event_def)
  note T1 = event_hook_frame[where engine="?e" and isModified="?m" and ev="?ev" and ev'="?r",
     THEN conjunct1, THEN mp, OF a]
  have 1: "slug ?r = ''old-slug''"
    using T1[THEN conjunct1] m by (simp add: sample_event_def)
  have 2: "date ?r = date ?ev"
    using T1[THEN conjunct2, THEN conjunct1] m(2) by (simp only: if_False)
  have 3: "normalizeTime (time ?ev) = Inr (time ?r)"
    using T1[THEN conjunct2, THEN conjunct2, THEN conjunct1] m(3) by (simp only: if_True)
  have b2: "preSave_v2 ?e ?all (sample_event ''online'') = Inr ?s"
    by (simp add: preSave_v2_def sample_event_def sample_slugs sample_times sample_date)
  have 4: "slug ?s = generateSlug_v2 (title (sample_event ''online''))"
    using event_hook_frame[where engine="?e" and isModified="?all" and ev="sample_event ''online''"
        and ev'="?s", THEN conjunct2, THEN conjunct1, THEN mp, OF b2, THEN conjunct1]
    by (simp only: if_True)
  have d: "?all ''date'' \<and> normalizeDate ?e (date ?d) = Inl InvalidDate"
    by (simp add: sample_event_def short_date)
  have 5: "preSave_v2 ?e ?all ?d = Inl InvalidDate"
    using event_hook_frame[where engine="?e" and isModified="?all" and ev="?d" and e=InvalidDate,
        THEN conjunct2, THEN conjunct2, THEN conjunct1, THEN mp, OF d]
    by (rule conjunct1)
  have t: "?m ''time'' \<and> (?m ''date'' \<longrightarrow> (\<exists>d. normalizeDate ?e (date ?t) = Inr d))
      \<and> normalizeTime (time ?t) = Inl InvalidTime"
    by (simp add: sample_event_def sample_times normalizeTime_v1_v2)
  have 6: "preSave_v2 ?e ?m ?t = Inl InvalidTime"
    using event_hook_frame[where engine="?e" and isModified="?m" and ev="?t" and e=InvalidTime,
        THEN conjunct2, THEN conjunct2, THEN conjunct2, THEN conjunct1, THEN mp, OF t]
    by (rule conjunct1)
  have n: "(?none ''date'' \<longrightarrow> (\<exists>d. normalizeDate ?e (date (sample_event ''online'')) = Inr d))
       \<and> (?none ''time'' \<longrightarrow> (\<exists>t. normalizeTime (time (sample_event ''online'')) = Inr t))"
    by simp
  have 7: "\<exists>r. preSave_v2 ?e ?none (sample_event ''online'') = Inr r"
    using event_hook_frame[where engine="?e" and isModified="?none" and ev="sample_event ''online''",
        THEN conjunct2, THEN conjunct2, THEN conjunct2, THEN conjunct2, THEN mp, OF n]
    by (rule conjunct1)
  from a 1 2 3 4 5 6 7 show ?thesis by (intro conjI)
qed

text \<open>
  The hook of the second variant on a document with no slug and an unmodified title:
  it accepts, and the slug is still unset.
\<close>

theorem event_slug_unset_counterexample:
  "slug (sample_event ''online'') = []
   \<and> preSave_v2 (\<lambda>s. None) (\<lambda>p. False) (sample_event ''online'') = Inr (sample_event ''online'')
   \<and> generateSlug_v2 (title (sample_event ''online'')) = ''tech-meetup-2025''"
  using sample_hook_v2_nothing[of "\<lambda>s. None"] sample_slugs(2)
  by (simp add: sample_event_def)

end
